theory Spec2Isabelle
  imports Complex_Main "HOL-Library.Log_Nat"
begin

section \<open>Strings\<close>

text \<open>
  A Python \<open>str\<close> is a sequence of code points and \<open>len\<close> counts code points. It is
  modelled as a \<open>string\<close> whose characters are the code points below 256, one character
  per code point. \<open>is_space\<close> is the set of those code points that \<open>str.strip()\<close>
  removes: tab, line feed, vertical tab, form feed, carriage return, the four separators
  0x1C..0x1F, the blank, NEL (0x85) and the no-break space (0xA0).
\<close>

definition is_space :: "char \<Rightarrow> bool" where
  "is_space c \<longleftrightarrow>
     c \<in> {CHR 0x09, CHR 0x0A, CHR 0x0B, CHR 0x0C, CHR 0x0D,
          CHR 0x1C, CHR 0x1D, CHR 0x1E, CHR 0x1F, CHR 0x20, CHR 0x85, CHR 0xA0}"

definition lstrip :: "string \<Rightarrow> string" where
  "lstrip s = dropWhile is_space s"

definition rstrip :: "string \<Rightarrow> string" where
  "rstrip s = rev (dropWhile is_space (rev s))"

text \<open>\<open>s.strip()\<close>: leading and trailing whitespace removed.\<close>

definition strip :: "string \<Rightarrow> string" where
  "strip s = rstrip (lstrip s)"

text \<open>\<open>" ".join(xs)\<close>, used to state what the chunk texts add up to.\<close>

fun join_sp :: "string list \<Rightarrow> string" where
  "join_sp [] = []"
| "join_sp [x] = x"
| "join_sp (x # y # ys) = x @ '' '' @ join_sp (y # ys)"

section \<open>Double-precision arithmetic\<close>

text \<open>
  A Python \<open>float\<close> is an IEEE 754 binary64 number. A finite double is modelled by the
  real number it denotes, and every arithmetic operation of the source by the exact
  operation followed by \<open>round_double\<close>, the rounding to the nearest double, ties to the
  even significand. \<open>float_exponent x\<close> is the exponent of the binade of a positive
  \<open>x\<close> (the floor of its binary logarithm) and \<open>quantum x\<close> the spacing of the doubles
  around \<open>x\<close>, which is \<open>2 powi (- 1074)\<close> throughout the subnormal range. Infinities
  and NaN are not modelled: the times of the recogniser are finite and far below the
  largest double.
\<close>

definition float_exponent :: "real \<Rightarrow> int" where
  "float_exponent x = (if 1 \<le> x then bitlen \<lfloor>x\<rfloor> - 1 else - bitlen (\<lceil>1 / x\<rceil> - 1))"

definition quantum :: "real \<Rightarrow> real" where
  "quantum x = 2 powi (max (float_exponent \<bar>x\<bar>) (- 1022) - 52)"

definition round_half_even :: "real \<Rightarrow> int" where
  "round_half_even q =
     (let f = \<lfloor>q\<rfloor>; r = q - of_int f
      in if r < 1 / 2 then f else if 1 / 2 < r then f + 1 else if even f then f else f + 1)"

definition round_double :: "real \<Rightarrow> real" where
  "round_double x =
     (if x = 0 then 0 else of_int (round_half_even (x / quantum x)) * quantum x)"

text \<open>The real numbers that are finite doubles.\<close>

definition is_double :: "real \<Rightarrow> bool" where
  "is_double x \<longleftrightarrow> \<bar>x\<bar> < 2 ^ 1024 \<and> round_double x = x"

section \<open>Timestamp formatter\<close>

text \<open>
  \<open>convert_seconds_to_srt_time\<close> is the same function in both source files. \<open>int(x)\<close>
  truncates towards zero. \<open>x % y\<close> and \<open>x // y\<close> on floats are CPython's
  \<open>float_rem\<close> and \<open>float_floor_div\<close>: both start from the C library's \<open>fmod\<close>, which
  is exact and has the sign of \<open>x\<close>; the remainder is moved to the sign of the divisor,
  and the quotient \<open>(x - mod) / y\<close> is computed in doubles and snapped to the nearest
  whole number. The divisor is never zero in the source (it is 3600 or 60).
\<close>

definition py_int :: "real \<Rightarrow> int" where
  "py_int x = (if 0 \<le> x then \<lfloor>x\<rfloor> else \<lceil>x\<rceil>)"

definition py_fmod :: "real \<Rightarrow> real \<Rightarrow> real" where
  "py_fmod x y = x - y * of_int (py_int (x / y))"

definition py_mod :: "real \<Rightarrow> real \<Rightarrow> real" where
  "py_mod x y =
     (let m = py_fmod x y
      in if m \<noteq> 0 then (if (y < 0) \<noteq> (m < 0) then round_double (m + y) else m) else 0)"

definition py_floordiv :: "real \<Rightarrow> real \<Rightarrow> real" where
  "py_floordiv x y =
     (let m = py_fmod x y;
          d0 = round_double (round_double (x - m) / y);
          d = (if m \<noteq> 0 \<and> (y < 0) \<noteq> (m < 0) then round_double (d0 - 1) else d0)
      in if d \<noteq> 0
         then (let f = of_int \<lfloor>d\<rfloor>
               in if 1 / 2 < round_double (d - f) then round_double (f + 1) else f)
         else 0)"

text \<open>The character of a decimal digit; it is only applied to numbers below ten.\<close>

definition digit_char :: "nat \<Rightarrow> char" where
  "digit_char d = ''0123456789'' ! d"

text \<open>\<open>str(n)\<close> for a natural number: its decimal digits, no leading zero.\<close>

fun str_nat :: "nat \<Rightarrow> string" where
  "str_nat n = (if n < 10 then [digit_char n] else str_nat (n div 10) @ [digit_char (n mod 10)])"

declare str_nat.simps [simp del]

text \<open>
  The format specification \<open>{n:0w}\<close> on an integer: sign-aware zero padding to a
  minimum width of \<open>w\<close> characters; a longer number is never cut.
\<close>

definition format_zero_pad :: "nat \<Rightarrow> int \<Rightarrow> string" where
  "format_zero_pad w n =
     (if n < 0
      then CHR ''-'' # replicate (w - 1 - length (str_nat (nat (- n)))) CHR ''0'' @ str_nat (nat (- n))
      else replicate (w - length (str_nat (nat n))) CHR ''0'' @ str_nat (nat n))"

definition convert_seconds_to_srt_time :: "real \<Rightarrow> string" where
  "convert_seconds_to_srt_time seconds =
     (let hours = py_int (py_floordiv seconds 3600);
          minutes = py_int (py_floordiv (py_mod seconds 3600) 60);
          secs = py_int (py_mod seconds 60);
          millis = py_int (round_double
                     (round_double (seconds - of_int (py_int seconds)) * 1000))
      in format_zero_pad 2 hours @ '':'' @ format_zero_pad 2 minutes @ '':'' @
         format_zero_pad 2 secs @ '','' @ format_zero_pad 3 millis)"

section \<open>Data model of the segmenter\<close>

text \<open>
  A word of the recogniser: the dictionary with keys \<open>word\<close>, \<open>start\<close>, \<open>end\<close>. The
  times are floats, modelled by the reals they denote.
\<close>

record word =
  w_word :: string
  w_start :: real
  w_end :: real

text \<open>A segment may or may not carry the key \<open>words\<close>.\<close>

record segment =
  seg_words :: "word list option"

record whisper_result =
  segments :: "segment list"

text \<open>
  An emitted subtitle: the dictionary with keys \<open>start\<close>, \<open>end\<close>, \<open>text\<close>. The two
  times are whatever \<open>chunk_start_time\<close> and \<open>chunk_end_time\<close> hold when the chunk is
  closed, so they are optional here as they are in the source (\<open>None\<close> or a float).
\<close>

record subtitle =
  sub_start :: "real option"
  sub_end :: "real option"
  sub_text :: string

text \<open>The local variables of the loop of \<open>create_srt_with_natural_breaks\<close>.\<close>

record chunk_state =
  subtitles :: "subtitle list"
  chunk_start_time :: "real option"
  chunk_end_time :: "real option"
  chunk_text :: string
  prev_word_end :: real

definition initial_state :: chunk_state where
  "initial_state =
     \<lparr>subtitles = [], chunk_start_time = None, chunk_end_time = None,
      chunk_text = [], prev_word_end = 0\<rparr>"

text \<open>Step 1 of the source: the words of all segments that have the key \<open>words\<close>.\<close>

fun collect_words :: "segment list \<Rightarrow> word list" where
  "collect_words [] = []"
| "collect_words (seg # segs) =
     (case seg_words seg of None \<Rightarrow> collect_words segs
      | Some ws \<Rightarrow> ws @ collect_words segs)"

section \<open>The segmentation loop\<close>

text \<open>
  \<open>subtitles.append({"start": chunk_start_time, "end": chunk_end_time,
  "text": chunk_text.strip()})\<close>
\<close>

definition append_chunk :: "chunk_state \<Rightarrow> subtitle list" where
  "append_chunk s =
     subtitles s @
     [\<lparr>sub_start = chunk_start_time s, sub_end = chunk_end_time s,
       sub_text = strip (chunk_text s)\<rparr>]"

text \<open>The close-and-reopen action of the branches a, b and c.\<close>

definition cut_before :: "word \<Rightarrow> chunk_state \<Rightarrow> chunk_state" where
  "cut_before w s =
     s\<lparr>subtitles := append_chunk s,
       chunk_start_time := Some (w_start w),
       chunk_end_time := Some (w_end w),
       chunk_text := strip (w_word w)\<rparr>"

text \<open>
  One iteration of \<open>for i, w in enumerate(words_list)\<close>; \<open>n\<close> is \<open>len(words_list)\<close>.
  \<open>last_char\<close> is a string of one character, or the empty string, and
  \<open>punctuation_breaks\<close> is a list of strings, as in the source.
\<close>

definition loop_body ::
  "int \<Rightarrow> real \<Rightarrow> real \<Rightarrow> string list \<Rightarrow> nat \<Rightarrow> nat \<times> word \<Rightarrow> chunk_state \<Rightarrow> chunk_state"
where
  "loop_body max_chars max_duration silence_threshold punctuation_breaks n iw s =
     (let i = fst iw; w = snd iw;
          word_start = w_start w; word_end = w_end w;
          trimmed_word = strip (w_word w)
      in case chunk_start_time s of
           None \<Rightarrow>
             s\<lparr>chunk_start_time := Some word_start, chunk_end_time := Some word_end,
               chunk_text := trimmed_word, prev_word_end := word_end\<rparr>
         | Some cst \<Rightarrow>
             (let proposed_text = strip (chunk_text s @ '' '' @ trimmed_word);
                  proposed_duration = round_double (word_end - cst)
              in (if int (length proposed_text) > max_chars
                    then cut_before w s
                  else if proposed_duration > max_duration
                    then cut_before w s
                  else if round_double (word_start - prev_word_end s) \<ge> silence_threshold
                          \<and> length (chunk_text s) > 0
                    then cut_before w s
                  else
                    (let s1 = s\<lparr>chunk_end_time := Some word_end, chunk_text := proposed_text\<rparr>;
                         last_char = (if trimmed_word \<noteq> [] then [last trimmed_word] else [])
                     in if last_char \<in> set punctuation_breaks \<and> int i < int n - 1
                        then s1\<lparr>subtitles := append_chunk s1, chunk_start_time := None,
                                chunk_end_time := None, chunk_text := []\<rparr>
                        else s1))
                 \<lparr>prev_word_end := word_end\<rparr>))"

text \<open>The whole loop over the enumerated word list.\<close>

definition run_loop ::
  "int \<Rightarrow> real \<Rightarrow> real \<Rightarrow> string list \<Rightarrow> word list \<Rightarrow> chunk_state"
where
  "run_loop max_chars max_duration silence_threshold punctuation_breaks words_list =
     fold (loop_body max_chars max_duration silence_threshold punctuation_breaks
             (length words_list))
          (enumerate 0 words_list) initial_state"

text \<open>The flush after the loop: \<open>if chunk_text.strip(): subtitles.append(...)\<close>.\<close>

definition flush :: "chunk_state \<Rightarrow> subtitle list" where
  "flush s = (if strip (chunk_text s) \<noteq> [] then append_chunk s else subtitles s)"

text \<open>The list \<open>subtitles\<close> as it stands when the file is written.\<close>

definition build_subtitles ::
  "int \<Rightarrow> real \<Rightarrow> real \<Rightarrow> string list \<Rightarrow> word list \<Rightarrow> subtitle list"
where
  "build_subtitles max_chars max_duration silence_threshold punctuation_breaks words_list =
     flush (run_loop max_chars max_duration silence_threshold punctuation_breaks words_list)"

section \<open>Writing the file\<close>

text \<open>
  The formatter applied to \<open>None\<close> raises \<open>TypeError\<close>; that is the only exception the
  typed model can raise.
\<close>

datatype py_error = TypeError

text \<open>
  The blocks written for the subtitles from index \<open>i\<close> on:
  \<open>f"{i}\n"\<close>, \<open>f"{start_srt} --> {end_srt}\n"\<close>, \<open>f"{text}\n\n"\<close>.
\<close>

fun srt_blocks :: "nat \<Rightarrow> subtitle list \<Rightarrow> py_error + string" where
  "srt_blocks i [] = Inr []"
| "srt_blocks i (sub # subs) =
     (case (sub_start sub, sub_end sub) of
        (Some b, Some e) \<Rightarrow>
          (case srt_blocks (Suc i) subs of
             Inl err \<Rightarrow> Inl err
           | Inr rest \<Rightarrow>
               Inr (str_nat i @ [CHR 0x0A] @
                    convert_seconds_to_srt_time b @ '' --> '' @
                    convert_seconds_to_srt_time e @ [CHR 0x0A] @
                    sub_text sub @ [CHR 0x0A, CHR 0x0A] @ rest))
      | _ \<Rightarrow> Inl TypeError)"

text \<open>What the function can change: the lines printed and the files written.\<close>

record world =
  stdout :: "string list"
  files :: "string \<Rightarrow> string option"

definition no_words_message :: string where
  "no_words_message =
     ''No se encontraron 'word timestamps' en el resultado. Aseg'' @ [CHR 0xFA] @
     ''rate de usar word_timestamps=True.''"

text \<open>
  \<open>create_srt_with_natural_breaks\<close>. The function has no \<open>raise\<close> statement and returns
  \<open>None\<close> on both of its exits, so a normal return is the world it leaves: after the
  early return the message is printed and no file is opened; otherwise the file at
  \<open>srt_path\<close> is replaced by the blocks. \<open>Inl\<close> is an exception that escapes from the
  formatter.
\<close>

definition create_srt_with_natural_breaks ::
  "whisper_result \<Rightarrow> string \<Rightarrow> int \<Rightarrow> real \<Rightarrow> real \<Rightarrow> string list \<Rightarrow> world
     \<Rightarrow> py_error + world"
where
  "create_srt_with_natural_breaks result srt_path max_chars max_duration
       silence_threshold punctuation_breaks wld =
     (let words_list = collect_words (segments result)
      in if words_list = []
         then Inr (wld\<lparr>stdout := stdout wld @ [no_words_message]\<rparr>)
         else
           (case srt_blocks 1
                   (build_subtitles max_chars max_duration silence_threshold
                      punctuation_breaks words_list) of
              Inl err \<Rightarrow> Inl err
            | Inr content \<Rightarrow> Inr (wld\<lparr>files := (files wld)(srt_path \<mapsto> content)\<rparr>)))"

section \<open>Notions used to state the properties\<close>

text \<open>
  The trimmed texts of a run of words, and the text a chunk made of that run carries:
  the space-join of the trimmed texts that are not empty.
\<close>

definition trimmed_texts :: "word list \<Rightarrow> string list" where
  "trimmed_texts ws = map (\<lambda>w. strip (w_word w)) ws"

definition visible_text :: "word list \<Rightarrow> string" where
  "visible_text ws = join_sp (filter (\<lambda>t. t \<noteq> []) (trimmed_texts ws))"

text \<open>
  The chunk of the specification's data model for a non-empty run of consecutive words:
  it starts where its first word starts, ends where its last word ends, and carries the
  text of the run.
\<close>

definition chunk_of_words :: "word list \<Rightarrow> subtitle" where
  "chunk_of_words g =
     \<lparr>sub_start = Some (w_start (hd g)), sub_end = Some (w_end (last g)),
      sub_text = visible_text g\<rparr>"

text \<open>A word whose own trimmed text is visible and longer than \<open>max_chars\<close>.\<close>

definition overlong :: "int \<Rightarrow> word \<Rightarrow> bool" where
  "overlong max_chars w \<longleftrightarrow>
     strip (w_word w) \<noteq> [] \<and> max_chars < int (length (strip (w_word w)))"

text \<open>
  What the loop guarantees of every run of words it puts into one chunk: a run of two or
  more words respects both limits, and an overlong word is alone in its run.
\<close>

definition bounded_group :: "int \<Rightarrow> real \<Rightarrow> word list \<Rightarrow> bool" where
  "bounded_group max_chars max_duration g \<longleftrightarrow>
     (2 \<le> length g \<longrightarrow>
        int (length (visible_text g)) \<le> max_chars \<and>
        round_double (w_end (last g) - w_start (hd g)) \<le> max_duration) \<and>
     (\<forall>w\<in>set g. overlong max_chars w \<longrightarrow> g = [w])"

text \<open>
  The loop invariant: the closed subtitles are the chunks of the runs \<open>gs\<close>, and the open
  chunk, if there is one, is the chunk of the run \<open>cur\<close>.
\<close>

definition tracks :: "int \<Rightarrow> real \<Rightarrow> word list list \<Rightarrow> word list \<Rightarrow> chunk_state \<Rightarrow> bool" where
  "tracks max_chars max_duration gs cur s \<longleftrightarrow>
     subtitles s = map chunk_of_words gs \<and> [] \<notin> set gs \<and>
     (case chunk_start_time s of
        None \<Rightarrow> cur = [] \<and> chunk_text s = []
      | Some cst \<Rightarrow>
          cur \<noteq> [] \<and> cst = w_start (hd cur) \<and> chunk_end_time s = Some (w_end (last cur)) \<and>
          chunk_text s = visible_text cur) \<and>
     (\<forall>g\<in>set gs. bounded_group max_chars max_duration g) \<and>
     bounded_group max_chars max_duration cur"

text \<open>
  The conditions of the branches of the loop body, for a chunk that is open since \<open>cst\<close>:
  a and b (the proposed text or the proposed duration is over its limit), c (the silence
  gap), and the test of branch d after the word has been added.
\<close>

definition overflows :: "int \<Rightarrow> real \<Rightarrow> chunk_state \<Rightarrow> real \<Rightarrow> word \<Rightarrow> bool" where
  "overflows max_chars max_duration s cst w \<longleftrightarrow>
     max_chars < int (length (strip (chunk_text s @ '' '' @ strip (w_word w)))) \<or>
     max_duration < round_double (w_end w - cst)"

definition silence_cut :: "real \<Rightarrow> chunk_state \<Rightarrow> word \<Rightarrow> bool" where
  "silence_cut silence_threshold s w \<longleftrightarrow>
     silence_threshold \<le> round_double (w_start w - prev_word_end s) \<and>
     0 < length (chunk_text s)"

definition punctuation_cut :: "string list \<Rightarrow> nat \<Rightarrow> nat \<Rightarrow> word \<Rightarrow> bool" where
  "punctuation_cut punctuation_breaks n i w \<longleftrightarrow>
     (if strip (w_word w) \<noteq> [] then [last (strip (w_word w))] else [])
        \<in> set punctuation_breaks \<and> int i < int n - 1"

text \<open>The word added to the open chunk (the first two assignments of the last branch).\<close>

definition absorb :: "word \<Rightarrow> chunk_state \<Rightarrow> chunk_state" where
  "absorb w s =
     s\<lparr>chunk_end_time := Some (w_end w),
       chunk_text := strip (chunk_text s @ '' '' @ strip (w_word w))\<rparr>"

text \<open>The local variables after the first \<open>k\<close> iterations of the loop.\<close>

definition state_after ::
  "int \<Rightarrow> real \<Rightarrow> real \<Rightarrow> string list \<Rightarrow> word list \<Rightarrow> nat \<Rightarrow> chunk_state"
where
  "state_after max_chars max_duration silence_threshold punctuation_breaks words_list k =
     fold (loop_body max_chars max_duration silence_threshold punctuation_breaks
             (length words_list))
          (take k (enumerate 0 words_list)) initial_state"

text \<open>
  Fixed-width decimal numbers, the decimal digits, and the number a string of digits
  denotes.
\<close>

definition two_digits :: "nat \<Rightarrow> string" where
  "two_digits n = [digit_char (n div 10), digit_char (n mod 10)]"

definition three_digits :: "nat \<Rightarrow> string" where
  "three_digits n = [digit_char (n div 100), digit_char (n div 10 mod 10), digit_char (n mod 10)]"

definition is_digit :: "char \<Rightarrow> bool" where
  "is_digit c \<longleftrightarrow> c \<in> set ''0123456789''"

definition dec_value :: "string \<Rightarrow> nat" where
  "dec_value s = foldl (\<lambda>a c. 10 * a + (of_char c - 48)) 0 s"

section \<open>Concrete inputs\<close>

text \<open>The default of the parameter \<open>punctuation_breaks\<close>.\<close>

definition default_punctuation_breaks :: "string list" where
  "default_punctuation_breaks = [''.'', ''!'', ''?'']"

definition mk_word :: "string \<Rightarrow> real \<Rightarrow> real \<Rightarrow> word" where
  "mk_word t b e = \<lparr>w_word = t, w_start = b, w_end = e\<rparr>"

text \<open>Scenario A of the specification; the fourth letter of the last word is o with acute.\<close>

definition scenario_a :: "word list" where
  "scenario_a =
     [mk_word ''Hola'' 0 (4 / 10), mk_word ''mundo.'' (4 / 10) (9 / 10),
      mk_word (''Adi'' @ [CHR 0xF3] @ ''s'') 2 (23 / 10)]"

text \<open>The local variables after the word \<open>Hola\<close> of scenario A.\<close>

definition hola_state :: chunk_state where
  "hola_state =
     \<lparr>subtitles = [], chunk_start_time = Some 0, chunk_end_time = Some (4 / 10),
      chunk_text = ''Hola'', prev_word_end = 4 / 10\<rparr>"

text \<open>A word of seventy letters, as in scenario B, after two short words.\<close>

definition long_word :: word where
  "long_word = mk_word (replicate 70 CHR ''a'') 1 2"

definition scenario_b :: "word list" where
  "scenario_b = [mk_word ''Hola'' 0 (4 / 10), mk_word ''mundo'' (4 / 10) (9 / 10), long_word]"

text \<open>A word list whose second word is a single blank.\<close>

definition blank_word_list :: "word list" where
  "blank_word_list =
     [mk_word ''Hola'' 0 (4 / 10), mk_word '' '' (4 / 10) (5 / 10), mk_word ''fin'' (5 / 10) 1]"

text \<open>A result whose only segment has no key \<open>words\<close>, and one with two words.\<close>

definition no_word_result :: whisper_result where
  "no_word_result = \<lparr>segments = [\<lparr>seg_words = None\<rparr>]\<rparr>"

definition two_letter_result :: whisper_result where
  "two_letter_result =
     \<lparr>segments = [\<lparr>seg_words = Some [mk_word ''a'' 0 1, mk_word ''b'' 1 2]\<rparr>]\<rparr>"


text \<open>The doubles that the Python literals \<open>0.29\<close>, \<open>0.7\<close> and \<open>5.7\<close> denote.\<close>

definition double_0_29 :: real where
  "double_0_29 = 5224175567749775 / 18014398509481984"



text \<open>Nothing printed yet and no file.\<close>

definition empty_world :: world where
  "empty_world = \<lparr>stdout = [], files = Map.empty\<rparr>"


section \<open>Rounding to the nearest even integer\<close>

lemma float_exponent_bounds:
  assumes "0 < x"
  shows "2 powi float_exponent x \<le> x" and "x < 2 powi (float_exponent x + 1)"
proof -
  have "2 powi float_exponent x \<le> x \<and> x < 2 powi (float_exponent x + 1)"
  proof (cases "1 \<le> x")
    case True
    let ?n = "\<lfloor>x\<rfloor>"
    have n: "0 < ?n" using True by simp
    have b: "1 \<le> bitlen ?n" using n by (simp add: bitlen_alt_def)
    have e: "float_exponent x = bitlen ?n - 1" using True by (simp add: float_exponent_def)
    from bitlen_bounds[OF n] have lo: "(2::int) ^ nat (bitlen ?n - 1) \<le> ?n"
      and hi: "?n < 2 ^ nat (bitlen ?n)" by simp_all
    have "(2::real) ^ nat (bitlen ?n - 1) \<le> of_int ?n"
      using lo by (metis of_int_le_iff of_int_numeral of_int_power)
    also have "\<dots> \<le> x" by simp
    finally have l: "2 powi float_exponent x \<le> x"
      using b by (simp add: e power_int_def)
    have "?n + 1 \<le> 2 ^ nat (bitlen ?n)" using hi by simp
    then have "of_int (?n + 1) \<le> (2::real) ^ nat (bitlen ?n)"
      by (metis of_int_le_iff of_int_numeral of_int_power)
    moreover have "x < of_int (?n + 1)" by linarith
    ultimately have "x < (2::real) ^ nat (bitlen ?n)" by linarith
    then have "x < 2 powi (float_exponent x + 1)"
      using b by (simp add: e power_int_def)
    with l show ?thesis by simp
  next
    case False
    let ?y = "1 / x"
    let ?c = "\<lceil>?y\<rceil>"
    let ?k = "bitlen (?c - 1)"
    have y: "1 < ?y" using False assms by simp
    have c: "0 < ?c - 1" using y by linarith
    have k: "1 \<le> ?k" using c by (simp add: bitlen_alt_def)
    have e: "float_exponent x = - ?k" using False by (simp add: float_exponent_def)
    from bitlen_bounds[OF c] have lo: "(2::int) ^ nat (?k - 1) \<le> ?c - 1"
      and hi: "?c - 1 < 2 ^ nat ?k" by simp_all
    have "?c \<le> 2 ^ nat ?k" using hi by simp
    then have "of_int ?c \<le> (2::real) ^ nat ?k"
      by (metis of_int_le_iff of_int_numeral of_int_power)
    moreover have "?y \<le> of_int ?c" by simp
    ultimately have yk: "?y \<le> 2 ^ nat ?k" by linarith
    have p: "(0::real) < 2 ^ nat ?k" by simp
    have "1 / 2 ^ nat ?k \<le> x"
      using yk assms p by (simp add: field_simps)
    then have l: "2 powi float_exponent x \<le> x"
      using k by (simp add: e power_int_def power_inverse field_simps)
    have "(2::real) ^ nat (?k - 1) \<le> of_int (?c - 1)"
      using lo by (metis of_int_le_iff of_int_numeral of_int_power)
    moreover have "of_int (?c - 1) < ?y" by linarith
    ultimately have "(2::real) ^ nat (?k - 1) < ?y" by linarith
    then have "x < 1 / 2 ^ nat (?k - 1)"
      using assms by (simp add: field_simps)
    moreover have "2 powi (float_exponent x + 1) = 1 / (2::real) ^ nat (?k - 1)"
    proof -
      have "float_exponent x + 1 = - (?k - 1)" using e by simp
      moreover have "0 \<le> ?k - 1" using k by simp
      ultimately show ?thesis
        by (simp add: power_int_minus_divide power_int_def power_one_over)
    qed
    ultimately have "x < 2 powi (float_exponent x + 1)" by simp
    with l show ?thesis by simp
  qed
  then show "2 powi float_exponent x \<le> x" and "x < 2 powi (float_exponent x + 1)"
    by simp_all
qed

lemma round_half_even_cases:
  "round_half_even q = \<lfloor>q\<rfloor> \<or> round_half_even q = \<lfloor>q\<rfloor> + 1"
  by (simp add: round_half_even_def Let_def)

lemma round_half_even_of_int [simp]: "round_half_even (of_int n) = n"
  by (simp add: round_half_even_def)

lemma round_half_even_low: "q < of_int n + 1 / 2 \<Longrightarrow> round_half_even q \<le> n"
proof -
  assume a: "q < of_int n + 1 / 2"
  then have f: "\<lfloor>q\<rfloor> \<le> n" by linarith
  show ?thesis
  proof (cases "\<lfloor>q\<rfloor> = n")
    case True
    then have "q - of_int \<lfloor>q\<rfloor> < 1 / 2" using a by simp
    then show ?thesis using True by (simp add: round_half_even_def Let_def)
  next
    case False
    with f have "\<lfloor>q\<rfloor> + 1 \<le> n" by simp
    then show ?thesis using round_half_even_cases[of q] by auto
  qed
qed

lemma round_half_even_high: "of_int n - 1 / 2 < q \<Longrightarrow> n \<le> round_half_even q"
proof -
  assume a: "of_int n - 1 / 2 < q"
  then have f: "n - 1 \<le> \<lfloor>q\<rfloor>" by linarith
  show ?thesis
  proof (cases "\<lfloor>q\<rfloor> = n - 1")
    case True
    then have "of_int \<lfloor>q\<rfloor> = of_int n - (1::real)" by simp
    then have "1 / 2 < q - of_int \<lfloor>q\<rfloor>" using a by linarith
    then show ?thesis using True by (simp add: round_half_even_def Let_def)
  next
    case False
    with f have "n \<le> \<lfloor>q\<rfloor>" by simp
    then show ?thesis using round_half_even_cases[of q] by auto
  qed
qed

lemma round_half_even_mono:
  assumes "a \<le> b"
  shows "round_half_even a \<le> round_half_even b"
proof (cases "\<lfloor>a\<rfloor> = \<lfloor>b\<rfloor>")
  case True
  have "a - of_int \<lfloor>a\<rfloor> \<le> b - of_int \<lfloor>b\<rfloor>" using assms True by simp
  then show ?thesis using True by (auto simp: round_half_even_def Let_def)
next
  case False
  have "\<lfloor>a\<rfloor> \<le> \<lfloor>b\<rfloor>" using assms by (rule floor_mono)
  with False have "\<lfloor>a\<rfloor> + 1 \<le> \<lfloor>b\<rfloor>" by simp
  then show ?thesis using round_half_even_cases[of a] round_half_even_cases[of b] by auto
qed

lemma round_half_even_minus: "round_half_even (- q) = - round_half_even q"
proof (cases "q = of_int \<lfloor>q\<rfloor>")
  case True
  then obtain n where "q = of_int n" ..
  then show ?thesis by (simp del: of_int_minus add: of_int_minus[symmetric])
next
  case False
  have lt: "of_int \<lfloor>q\<rfloor> < q"
    using order.not_eq_order_implies_strict[OF False[symmetric] of_int_floor_le] .
  have fl: "\<lfloor>- q\<rfloor> = - \<lfloor>q\<rfloor> - 1"
  proof (rule floor_unique)
    show "of_int (- \<lfloor>q\<rfloor> - 1) \<le> - q" by simp linarith
    show "- q < of_int (- \<lfloor>q\<rfloor> - 1) + 1" using lt by simp
  qed
  let ?r = "q - of_int \<lfloor>q\<rfloor>"
  have r: "- q - of_int \<lfloor>- q\<rfloor> = 1 - ?r" by (simp add: fl)
  have ev: "even (- \<lfloor>q\<rfloor> - 1) \<longleftrightarrow> odd \<lfloor>q\<rfloor>" by simp
  consider "?r < 1 / 2" | "1 / 2 < ?r" | "?r = 1 / 2" by linarith
  then show ?thesis
  proof cases
    case 1
    then have "round_half_even q = \<lfloor>q\<rfloor>" by (simp add: round_half_even_def Let_def)
    moreover have "round_half_even (- q) = \<lfloor>- q\<rfloor> + 1"
      using 1 unfolding round_half_even_def Let_def r by simp
    ultimately show ?thesis by (simp add: fl)
  next
    case 2
    then have "round_half_even q = \<lfloor>q\<rfloor> + 1" by (simp add: round_half_even_def Let_def)
    moreover have "round_half_even (- q) = \<lfloor>- q\<rfloor>"
      using 2 unfolding round_half_even_def Let_def r by simp
    ultimately show ?thesis by (simp add: fl)
  next
    case 3
    then have a: "round_half_even q = (if even \<lfloor>q\<rfloor> then \<lfloor>q\<rfloor> else \<lfloor>q\<rfloor> + 1)"
      by (simp add: round_half_even_def Let_def)
    have "round_half_even (- q) = (if even \<lfloor>- q\<rfloor> then \<lfloor>- q\<rfloor> else \<lfloor>- q\<rfloor> + 1)"
      using 3 unfolding round_half_even_def Let_def r by simp
    then show ?thesis using a ev by (simp add: fl)
  qed
qed

section \<open>Rounding to the nearest double\<close>

lemma two_powi_pos [simp]: "(0::real) < 2 powi e"
  by (simp add: zero_less_power_int)

lemma two_powi_nat: "0 \<le> e \<Longrightarrow> (2::real) powi e = of_int (2 ^ nat e)"
  by (simp add: power_int_def)

lemma two_powi_split: "(2::real) powi (a + b) = 2 powi a * 2 powi b"
  by (rule power_int_add) simp

lemma two_powi_le: "a \<le> b \<Longrightarrow> (2::real) powi a \<le> 2 powi b"
  by (rule power_int_increasing) simp_all

lemma two_powi_less: "a < b \<Longrightarrow> (2::real) powi a < 2 powi b"
  by (rule power_int_strict_increasing) simp_all

lemma float_exponent_unique:
  assumes "2 powi e \<le> x" "x < 2 powi (e + 1)"
  shows "float_exponent x = e"
proof -
  have x: "0 < x" using assms(1) two_powi_pos[of e] by linarith
  let ?f = "float_exponent x"
  have f1: "2 powi ?f \<le> x" and f2: "x < 2 powi (?f + 1)"
    using float_exponent_bounds[OF x] by simp_all
  have "\<not> ?f < e"
  proof
    assume "?f < e"
    then have "2 powi (?f + 1) \<le> (2::real) powi e" by (intro two_powi_le) simp
    with f2 assms(1) show False by linarith
  qed
  moreover have "\<not> e < ?f"
  proof
    assume "e < ?f"
    then have "2 powi (e + 1) \<le> (2::real) powi ?f" by (intro two_powi_le) simp
    with f1 assms(2) show False by linarith
  qed
  ultimately show ?thesis by simp
qed

lemma float_exponent_mono:
  assumes "0 < x" "x \<le> y"
  shows "float_exponent x \<le> float_exponent y"
proof (rule ccontr)
  assume "\<not> float_exponent x \<le> float_exponent y"
  then have "2 powi (float_exponent y + 1) \<le> (2::real) powi float_exponent x"
    by (intro two_powi_le) simp
  moreover have "2 powi float_exponent x \<le> x" using float_exponent_bounds(1)[OF assms(1)] .
  moreover have "y < 2 powi (float_exponent y + 1)"
    using float_exponent_bounds(2)[of y] assms by simp
  ultimately show False using assms(2) by linarith
qed

lemma quantum_pos [simp]: "0 < quantum x"
  by (simp add: quantum_def)

lemma quantum_minus [simp]: "quantum (- x) = quantum x"
  by (simp add: quantum_def)

lemma round_double_zero [simp]: "round_double 0 = 0"
  by (simp add: round_double_def)

lemma round_double_minus: "round_double (- x) = - round_double x"
  by (simp add: round_double_def round_half_even_minus)

lemma round_double_above:
  assumes "of_int i * quantum x \<le> x"
  shows "of_int i * quantum x \<le> round_double x"
proof (cases "x = 0")
  case True
  with assms show ?thesis by simp
next
  case False
  have "of_int i \<le> x / quantum x" using assms by (simp add: pos_le_divide_eq)
  then have "round_half_even (of_int i) \<le> round_half_even (x / quantum x)"
    by (rule round_half_even_mono)
  then have "i \<le> round_half_even (x / quantum x)" by simp
  then have "of_int i * quantum x \<le> of_int (round_half_even (x / quantum x)) * quantum x"
    by (simp add: mult_right_mono)
  then show ?thesis using False by (simp add: round_double_def)
qed

lemma round_double_below:
  assumes "x \<le> of_int j * quantum x"
  shows "round_double x \<le> of_int j * quantum x"
proof (cases "x = 0")
  case True
  with assms show ?thesis by simp
next
  case False
  have "x / quantum x \<le> of_int j" using assms by (simp add: pos_divide_le_eq)
  then have "round_half_even (x / quantum x) \<le> round_half_even (of_int j)"
    by (rule round_half_even_mono)
  then have "round_half_even (x / quantum x) \<le> j" by simp
  then have "of_int (round_half_even (x / quantum x)) * quantum x \<le> of_int j * quantum x"
    by (simp add: mult_right_mono)
  then show ?thesis using False by (simp add: round_double_def)
qed

lemma round_double_mono_pos:
  assumes x: "0 < x" and xy: "x \<le> y"
  shows "round_double x \<le> round_double y"
proof -
  have y: "0 < y" using x xy by linarith
  let ?ex = "max (float_exponent x) (- 1022)"
  let ?ey = "max (float_exponent y) (- 1022)"
  have qx: "quantum x = 2 powi (?ex - 52)" using x by (simp add: quantum_def)
  have qy: "quantum y = 2 powi (?ey - 52)" using y by (simp add: quantum_def)
  have le: "?ex \<le> ?ey" using float_exponent_mono[OF x xy] by simp
  show ?thesis
  proof (cases "?ex = ?ey")
    case True
    then have q: "quantum x = quantum y" using qx qy by simp
    have "x / quantum y \<le> y / quantum y"
      using xy by (rule divide_right_mono) (simp add: less_imp_le)
    then have "round_half_even (x / quantum y) \<le> round_half_even (y / quantum y)"
      by (rule round_half_even_mono)
    then have "of_int (round_half_even (x / quantum y)) * quantum y
                 \<le> of_int (round_half_even (y / quantum y)) * quantum y"
      by (simp add: mult_right_mono)
    then show ?thesis using x y q by (simp add: round_double_def)
  next
    case False
    with le have lt: "?ex + 1 \<le> ?ey" by simp
    then have ey: "?ey = float_exponent y" by (simp add: max_def split: if_splits)
    have b: "2 powi (?ex + 1) = of_int (2 ^ 53) * quantum x"
    proof -
      have e: "?ex + 1 = 53 + (?ex - 52)" by simp
      have "(2::real) powi (?ex + 1) = 2 powi 53 * 2 powi (?ex - 52)"
        by (subst e) (rule two_powi_split)
      then show ?thesis by (simp add: qx)
    qed
    have c: "2 powi ?ey = of_int (2 ^ 52) * quantum y"
    proof -
      have e: "?ey = 52 + (?ey - 52)" by simp
      have "(2::real) powi ?ey = 2 powi 52 * 2 powi (?ey - 52)"
        by (subst e) (rule two_powi_split)
      then show ?thesis by (simp add: qy)
    qed
    have "x < 2 powi (float_exponent x + 1)" using float_exponent_bounds(2)[OF x] .
    also have "\<dots> \<le> 2 powi (?ex + 1)" by (intro two_powi_le) simp
    finally have "x \<le> of_int (2 ^ 53) * quantum x" using b by simp
    then have "round_double x \<le> of_int (2 ^ 53) * quantum x" by (rule round_double_below)
    then have 1: "round_double x \<le> 2 powi (?ex + 1)" using b by simp
    have "2 powi ?ey \<le> y" using float_exponent_bounds(1)[OF y] ey by simp
    then have "of_int (2 ^ 52) * quantum y \<le> y" using c by simp
    then have "of_int (2 ^ 52) * quantum y \<le> round_double y" by (rule round_double_above)
    then have 2: "2 powi ?ey \<le> round_double y" using c by simp
    have "(2::real) powi (?ex + 1) \<le> 2 powi ?ey" using lt by (rule two_powi_le)
    with 1 2 show ?thesis by linarith
  qed
qed

lemma round_double_nonneg: "0 \<le> x \<Longrightarrow> 0 \<le> round_double x"
  using round_double_above[of 0 x] by simp

lemma round_double_mono:
  assumes "x \<le> y"
  shows "round_double x \<le> round_double y"
proof -
  consider "0 < x" | "x \<le> 0" "0 \<le> y" | "y < 0" by linarith
  then show ?thesis
  proof cases
    case 1
    then show ?thesis using assms by (rule round_double_mono_pos)
  next
    case 2
    have "0 \<le> round_double (- x)" using 2(1) by (intro round_double_nonneg) simp
    then have "round_double x \<le> 0" by (simp add: round_double_minus)
    moreover have "0 \<le> round_double y" using 2(2) by (rule round_double_nonneg)
    ultimately show ?thesis by linarith
  next
    case 3
    then have "0 < - y" "- y \<le> - x" using assms by simp_all
    then have "round_double (- y) \<le> round_double (- x)" by (rule round_double_mono_pos)
    then show ?thesis by (simp add: round_double_minus)
  qed
qed

lemma round_double_exact:
  assumes m: "\<bar>m\<bar> < 2 ^ 53" and k: "- 1074 \<le> k"
  shows "round_double (of_int m * 2 powi k) = of_int m * 2 powi k"
proof (cases "m = 0")
  case True
  then show ?thesis by simp
next
  case False
  let ?x = "of_int m * (2::real) powi k"
  have x0: "?x \<noteq> 0" using False by simp
  have ax: "\<bar>?x\<bar> = of_int \<bar>m\<bar> * 2 powi k" by (simp add: abs_mult)
  have pos: "0 < \<bar>?x\<bar>" using x0 by simp
  let ?e = "float_exponent \<bar>?x\<bar>"
  let ?g = "max ?e (- 1022) - 52"
  have "of_int \<bar>m\<bar> < (2::real) ^ 53" using m by (metis of_int_less_iff of_int_numeral of_int_power)
  then have "\<bar>?x\<bar> < 2 ^ 53 * 2 powi k" unfolding ax by (simp add: mult_strict_right_mono)
  also have "\<dots> = 2 powi (53 + k)" using two_powi_split[of 53 k] by simp
  finally have up: "\<bar>?x\<bar> < 2 powi (53 + k)" .
  have "\<not> 53 + k \<le> ?e"
  proof
    assume "53 + k \<le> ?e"
    then have "(2::real) powi (53 + k) \<le> 2 powi ?e" by (rule two_powi_le)
    with float_exponent_bounds(1)[OF pos] up show False by linarith
  qed
  then have g: "?g \<le> k" using k by simp
  have q: "quantum ?x = 2 powi ?g" by (simp add: quantum_def)
  have ek: "k = (k - ?g) + ?g" by simp
  have "(2::real) powi k = 2 powi (k - ?g) * 2 powi ?g"
    by (subst ek) (rule two_powi_split)
  moreover have "2 powi (k - ?g) = (of_int (2 ^ nat (k - ?g)) :: real)"
    using g by (intro two_powi_nat) simp
  ultimately have kk: "(2::real) powi k = of_int (2 ^ nat (k - ?g)) * 2 powi ?g" by simp
  have "?x / quantum ?x = of_int (m * 2 ^ nat (k - ?g))"
    unfolding q by (subst kk) simp
  then have "round_half_even (?x / quantum ?x) = m * 2 ^ nat (k - ?g)"
    by (simp only: round_half_even_of_int)
  then have "round_double ?x = of_int (m * 2 ^ nat (k - ?g)) * 2 powi ?g"
    using x0 q by (simp add: round_double_def)
  also have "\<dots> = ?x" by (subst (2) kk) simp
  finally show ?thesis .
qed

lemma round_double_of_int:
  "\<bar>n\<bar> < 2 ^ 53 \<Longrightarrow> round_double (of_int n) = of_int n"
  using round_double_exact[of n 0] by simp

lemma round_double_binade:
  assumes "2 powi e \<le> \<bar>x\<bar>" "\<bar>x\<bar> < 2 powi (e + 1)" "- 1022 \<le> e"
  shows "round_double x = of_int (round_half_even (x / 2 powi (e - 52))) * 2 powi (e - 52)"
proof -
  have "float_exponent \<bar>x\<bar> = e" using assms(1,2) by (rule float_exponent_unique)
  then have q: "quantum x = 2 powi (e - 52)" using assms(3) by (simp add: quantum_def)
  have "0 < \<bar>x\<bar>" using assms(1) two_powi_pos[of e] by linarith
  then have "x \<noteq> 0" by simp
  then show ?thesis by (simp add: round_double_def q)
qed

lemma round_double_grid:
  assumes r: "round_double x = x" and x: "0 < x"
  shows "\<exists>N. x = of_int N * quantum x \<and> 0 < N \<and> N < 2 ^ 53"
proof -
  let ?N = "round_half_even (x / quantum x)"
  let ?e = "max (float_exponent x) (- 1022)"
  have q: "quantum x = 2 powi (?e - 52)" using x by (simp add: quantum_def)
  have e: "x = of_int ?N * quantum x" using r x by (simp add: round_double_def)
  have n0: "0 < ?N"
  proof (rule ccontr)
    assume "\<not> 0 < ?N"
    then have "of_int ?N * quantum x \<le> 0"
      by (simp add: mult_le_0_iff less_imp_le)
    with e x show False by linarith
  qed
  have s: "?e + 1 = 53 + (?e - 52)" by simp
  have "x < 2 powi (float_exponent x + 1)" using float_exponent_bounds(2)[OF x] .
  also have "\<dots> \<le> 2 powi (?e + 1)" by (intro two_powi_le) simp
  also have "\<dots> = 2 powi 53 * 2 powi (?e - 52)" by (subst s) (rule two_powi_split)
  finally have "of_int ?N * quantum x < 2 ^ 53 * quantum x" using e q by simp
  then have "of_int ?N < (2::real) ^ 53"
    using quantum_pos[of x] by (simp only: mult_less_cancel_right_pos)
  then have "?N < 2 ^ 53" by (metis of_int_less_iff of_int_numeral of_int_power)
  with e n0 show ?thesis by blast
qed

section \<open>Facts about trimming and joining\<close>

lemma space_is_space: "is_space CHR '' ''"
  by (simp add: is_space_def)

lemma dropWhile_hd_keep: "m \<noteq> [] \<Longrightarrow> \<not> P (hd m) \<Longrightarrow> dropWhile P m = m"
  by (cases m) auto

lemma lstrip_sandwich:
  assumes "\<forall>x\<in>set a. is_space x" "m \<noteq> []" "\<not> is_space (hd m)"
  shows "lstrip (a @ m) = m"
proof -
  have "dropWhile is_space (a @ m) = dropWhile is_space m"
    using assms(1) by (intro dropWhile_append2) simp
  then show ?thesis using assms(2,3) by (simp add: lstrip_def dropWhile_hd_keep)
qed

lemma rstrip_sandwich:
  assumes "\<forall>x\<in>set b. is_space x" "m \<noteq> []" "\<not> is_space (last m)"
  shows "rstrip (m @ b) = m"
proof -
  have "dropWhile is_space (rev b @ rev m) = dropWhile is_space (rev m)"
    using assms(1) by (intro dropWhile_append2) simp
  also have "\<dots> = rev m"
    using assms(2,3) by (simp add: dropWhile_hd_keep hd_rev)
  finally show ?thesis by (simp add: rstrip_def)
qed

lemma strip_sandwich:
  assumes "\<forall>x\<in>set a. is_space x" "\<forall>x\<in>set b. is_space x"
    and "m \<noteq> []" "\<not> is_space (hd m)" "\<not> is_space (last m)"
  shows "strip (a @ m @ b) = m"
proof -
  have "lstrip (a @ (m @ b)) = m @ b"
    using assms by (simp add: lstrip_sandwich)
  then show ?thesis
    using assms by (simp add: strip_def rstrip_sandwich)
qed

lemma strip_all_space: "\<forall>x\<in>set s. is_space x \<Longrightarrow> strip s = []"
proof -
  assume a: "\<forall>x\<in>set s. is_space x"
  then have l: "lstrip s = []" by (simp add: lstrip_def)
  show "strip s = []" by (simp add: strip_def rstrip_def l)
qed

lemma strip_decomp:
  assumes "\<not> (\<forall>x\<in>set s. is_space x)"
  shows "\<exists>a m b. s = a @ m @ b \<and> (\<forall>x\<in>set a. is_space x) \<and> (\<forall>x\<in>set b. is_space x)
    \<and> m \<noteq> [] \<and> \<not> is_space (hd m) \<and> \<not> is_space (last m)"
proof -
  from assms have "\<exists>x\<in>set s. \<not> is_space x" by simp
  then obtain a c r where s: "s = a @ c # r" and a: "\<forall>x\<in>set a. \<not> \<not> is_space x" and c: "\<not> is_space c"
    using split_list_first_prop[of s "\<lambda>x. \<not> is_space x"] by blast
  have "\<exists>x\<in>set (c # r). \<not> is_space x" using c by simp
  then obtain m' d b where r: "c # r = m' @ d # b" and b: "\<forall>x\<in>set b. \<not> \<not> is_space x" and d: "\<not> is_space d"
    using split_list_last_prop[of "c # r" "\<lambda>x. \<not> is_space x"] by blast
  let ?m = "m' @ [d]"
  have hd: "hd ?m = c" using r by (cases m') auto
  have "s = a @ ?m @ b" using s r by simp
  moreover have "?m \<noteq> []" by simp
  moreover have "\<not> is_space (hd ?m)" using hd c by simp
  moreover have "\<not> is_space (last ?m)" using d by simp
  ultimately show ?thesis using a b by blast
qed

lemma strip_eq_Nil: "strip s = [] \<longleftrightarrow> (\<forall>c\<in>set s. is_space c)"
proof
  assume e: "strip s = []"
  show "\<forall>c\<in>set s. is_space c"
  proof (rule ccontr)
    assume n: "\<not> (\<forall>c\<in>set s. is_space c)"
    from strip_decomp[OF n] obtain a m b where "s = a @ m @ b" "\<forall>x\<in>set a. is_space x" "\<forall>x\<in>set b. is_space x"
    "m \<noteq> []" "\<not> is_space (hd m)" "\<not> is_space (last m)" by blast
    then have "strip s = m" "m \<noteq> []" by (simp_all add: strip_sandwich)
    with e show False by simp
  qed
qed (simp add: strip_all_space)

lemma strip_ends:
  assumes "strip s \<noteq> []"
  shows "\<not> is_space (hd (strip s))" and "\<not> is_space (last (strip s))"
proof -
  from assms have n: "\<not> (\<forall>c\<in>set s. is_space c)" by (simp add: strip_eq_Nil)
  from strip_decomp[OF n] obtain a m b where "s = a @ m @ b" "\<forall>x\<in>set a. is_space x" "\<forall>x\<in>set b. is_space x"
    "m \<noteq> []" "\<not> is_space (hd m)" "\<not> is_space (last m)" by blast
  then have "strip s = m" "\<not> is_space (hd m)" "\<not> is_space (last m)" by (simp_all add: strip_sandwich)
  then show "\<not> is_space (hd (strip s))" and "\<not> is_space (last (strip s))" by simp_all
qed

lemma strip_fixed: "s \<noteq> [] \<Longrightarrow> \<not> is_space (hd s) \<Longrightarrow> \<not> is_space (last s) \<Longrightarrow> strip s = s"
  using strip_sandwich[of "[]" "[]" s] by simp

lemma strip_idem: "strip (strip s) = strip s"
proof (cases "strip s = []")
  case True
  then show ?thesis by (simp add: strip_all_space)
next
  case False
  then show ?thesis by (simp add: strip_fixed strip_ends)
qed

lemma strip_join_both:
  assumes "strip a = a" "a \<noteq> []" "strip b = b" "b \<noteq> []"
  shows "strip (a @ '' '' @ b) = a @ '' '' @ b"
proof -
  have "\<not> is_space (hd a)" using strip_ends(1)[of a] assms by simp
  moreover have "\<not> is_space (last b)" using strip_ends(2)[of b] assms by simp
  ultimately show ?thesis using assms by (intro strip_fixed) simp_all
qed

lemma strip_join_right_empty:
  assumes "strip a = a"
  shows "strip (a @ '' '') = a"
proof (cases "a = []")
  case True
  then show ?thesis by (simp add: strip_all_space space_is_space)
next
  case False
  have "strip ([] @ a @ '' '') = a"
    using assms False strip_ends[of a] by (intro strip_sandwich) (simp_all add: space_is_space)
  then show ?thesis by simp
qed

lemma strip_join_left_empty:
  assumes "strip b = b"
  shows "strip ('' '' @ b) = b"
proof (cases "b = []")
  case True
  then show ?thesis by (simp add: strip_all_space space_is_space)
next
  case False
  have "strip ('' '' @ b @ []) = b"
    using assms False strip_ends[of b] by (intro strip_sandwich) (simp_all add: space_is_space)
  then show ?thesis by simp
qed

lemma strip_join:
  assumes "strip a = a" "strip b = b"
  shows "strip (a @ '' '' @ b) =
           (if a = [] then b else if b = [] then a else a @ '' '' @ b)"
  using assms strip_join_both[of a b] strip_join_left_empty[of b] strip_join_right_empty[of a]
  by auto

lemma strip_join_length:
  assumes "strip a = a" "strip b = b"
  shows "length a \<le> length (strip (a @ '' '' @ b))" and "length b \<le> length (strip (a @ '' '' @ b))"
  using strip_join[OF assms] by (simp_all split: if_splits)

lemma join_sp_Cons: "ys \<noteq> [] \<Longrightarrow> join_sp (x # ys) = x @ '' '' @ join_sp ys"
  by (cases ys) simp_all

lemma join_sp_append:
  "xs \<noteq> [] \<Longrightarrow> ys \<noteq> [] \<Longrightarrow> join_sp (xs @ ys) = join_sp xs @ '' '' @ join_sp ys"
proof (induction xs rule: join_sp.induct)
  case 1
  then show ?case by simp
next
  case (2 x)
  then show ?case by (simp add: join_sp_Cons)
next
  case (3 x y zs)
  then show ?case by simp
qed

lemma join_sp_concat:
  "[] \<notin> set xss \<Longrightarrow> join_sp (map join_sp xss) = join_sp (concat xss)"
proof (induction xss)
  case Nil
  then show ?case by simp
next
  case (Cons xs xss)
  show ?case
  proof (cases "xss = []")
    case True
    then show ?thesis by simp
  next
    case False
    then obtain z zs where z: "xss = z # zs" by (cases xss) auto
    with Cons.prems have ne: "xs \<noteq> []" "concat xss \<noteq> []" by auto
    have "join_sp (map join_sp (xs # xss)) = join_sp xs @ '' '' @ join_sp (map join_sp xss)"
      using False by (simp add: join_sp_Cons)
    also have "\<dots> = join_sp xs @ '' '' @ join_sp (concat xss)"
      using Cons by simp
    also have "\<dots> = join_sp (xs @ concat xss)"
      using ne by (simp add: join_sp_append)
    finally show ?thesis by simp
  qed
qed

lemma join_sp_eq_Nil:
  "\<forall>x\<in>set xs. x \<noteq> [] \<Longrightarrow> join_sp xs = [] \<longleftrightarrow> xs = []"
  by (induction xs rule: join_sp.induct) simp_all

lemma join_sp_stripped:
  "\<forall>x\<in>set xs. strip x = x \<and> x \<noteq> [] \<Longrightarrow> strip (join_sp xs) = join_sp xs"
proof (induction xs rule: join_sp.induct)
  case 1
  then show ?case by (simp add: strip_all_space)
next
  case (2 x)
  then show ?case by simp
next
  case (3 x y zs)
  then have a: "strip (join_sp (y # zs)) = join_sp (y # zs)" by simp
  have b: "join_sp (y # zs) \<noteq> []" using 3(2) join_sp_eq_Nil[of "y # zs"] by simp
  have "strip (x @ '' '' @ join_sp (y # zs)) = x @ '' '' @ join_sp (y # zs)"
    using 3(2) a b by (intro strip_join_both) simp_all
  then show ?case by simp
qed

section \<open>The text of a run of words\<close>

lemma visible_text_stripped: "strip (visible_text g) = visible_text g"
  unfolding visible_text_def trimmed_texts_def
  by (rule join_sp_stripped) (auto simp: strip_idem)

lemma visible_text_Nil: "visible_text [] = []"
  by (simp add: visible_text_def trimmed_texts_def)

lemma visible_text_single: "visible_text [w] = strip (w_word w)"
  by (simp add: visible_text_def trimmed_texts_def)

lemma visible_text_eq_Nil: "visible_text g = [] \<longleftrightarrow> (\<forall>w\<in>set g. strip (w_word w) = [])"
proof -
  have "visible_text g = [] \<longleftrightarrow> filter (\<lambda>t. t \<noteq> []) (trimmed_texts g) = []"
    unfolding visible_text_def by (rule join_sp_eq_Nil) simp
  also have "\<dots> \<longleftrightarrow> (\<forall>w\<in>set g. strip (w_word w) = [])"
    by (auto simp: trimmed_texts_def filter_empty_conv)
  finally show ?thesis .
qed

lemma visible_text_snoc:
  "visible_text (g @ [w]) = strip (visible_text g @ '' '' @ strip (w_word w))"
proof -
  let ?t = "strip (w_word w)"
  let ?f = "filter (\<lambda>t. t \<noteq> []) (trimmed_texts g)"
  have st: "strip ?t = ?t" by (rule strip_idem)
  have sv: "strip (visible_text g) = visible_text g" by (rule visible_text_stripped)
  have rhs: "strip (visible_text g @ '' '' @ ?t) =
      (if visible_text g = [] then ?t else if ?t = [] then visible_text g
       else visible_text g @ '' '' @ ?t)"
    using strip_join[OF sv st] .
  have f: "visible_text g = [] \<longleftrightarrow> ?f = []"
    unfolding visible_text_def by (rule join_sp_eq_Nil) simp
  have lhs: "visible_text (g @ [w]) = (if ?t = [] then join_sp ?f else join_sp (?f @ [?t]))"
    by (simp add: visible_text_def trimmed_texts_def)
  show ?thesis
  proof (cases "?t = []")
    case True
    then show ?thesis using lhs rhs f by (simp add: visible_text_def)
  next
    case False
    show ?thesis
    proof (cases "?f = []")
      case True
      then show ?thesis using lhs rhs f False by simp
    next
      case nf: False
      then have "join_sp (?f @ [?t]) = join_sp ?f @ '' '' @ ?t"
        by (simp add: join_sp_append)
      then show ?thesis using lhs rhs f False nf by (simp add: visible_text_def)
    qed
  qed
qed

lemma visible_text_all:
  "\<forall>w\<in>set g. strip (w_word w) \<noteq> [] \<Longrightarrow> visible_text g = join_sp (trimmed_texts g)"
  by (simp add: visible_text_def trimmed_texts_def filter_id_conv)

section \<open>The loop keeps track of a partition of the words\<close>

lemma loop_body_None:
  "chunk_start_time s = None \<Longrightarrow>
   loop_body mc md st pb n (i, w) s =
     s\<lparr>chunk_start_time := Some (w_start w), chunk_end_time := Some (w_end w),
       chunk_text := strip (w_word w), prev_word_end := w_end w\<rparr>"
  by (simp add: loop_body_def Let_def)

lemma loop_body_cut:
  "chunk_start_time s = Some cst \<Longrightarrow> overflows mc md s cst w \<or> silence_cut st s w \<Longrightarrow>
   loop_body mc md st pb n (i, w) s = (cut_before w s)\<lparr>prev_word_end := w_end w\<rparr>"
  by (auto simp: loop_body_def overflows_def silence_cut_def Let_def)

lemma loop_body_absorb:
  "chunk_start_time s = Some cst \<Longrightarrow> \<not> overflows mc md s cst w \<Longrightarrow> \<not> silence_cut st s w \<Longrightarrow>
   loop_body mc md st pb n (i, w) s =
     (if punctuation_cut pb n i w
      then (absorb w s)\<lparr>subtitles := append_chunk (absorb w s), chunk_start_time := None,
              chunk_end_time := None, chunk_text := [], prev_word_end := w_end w\<rparr>
      else (absorb w s)\<lparr>prev_word_end := w_end w\<rparr>)"
  by (auto simp: loop_body_def overflows_def silence_cut_def absorb_def punctuation_cut_def Let_def)

lemma bounded_group_single: "bounded_group mc md [w]"
  by (simp add: bounded_group_def)

lemma bounded_group_Nil: "bounded_group mc md []"
  by (simp add: bounded_group_def)

lemma tracks_open:
  assumes "tracks mc md gs cur s" "chunk_start_time s = None"
  shows "tracks mc md gs [w] (loop_body mc md st pb n (i, w) s)" and "cur = []"
  using assms
  by (simp_all add: tracks_def loop_body_None visible_text_single bounded_group_single)

lemma append_chunk_tracks:
  assumes "tracks mc md gs cur s" "chunk_start_time s = Some cst"
  shows "append_chunk s = map chunk_of_words (gs @ [cur])" and "cur \<noteq> []"
  using assms
  by (simp_all add: tracks_def append_chunk_def chunk_of_words_def visible_text_stripped)

lemma tracks_cut:
  assumes t: "tracks mc md gs cur s" and c: "chunk_start_time s = Some cst"
    and o: "overflows mc md s cst w \<or> silence_cut st s w"
  shows "tracks mc md (gs @ [cur]) [w] (loop_body mc md st pb n (i, w) s)"
proof -
  have "loop_body mc md st pb n (i, w) s = (cut_before w s)\<lparr>prev_word_end := w_end w\<rparr>"
    using c o by (rule loop_body_cut)
  moreover have "append_chunk s = map chunk_of_words (gs @ [cur])" "cur \<noteq> []"
    using append_chunk_tracks[OF t c] by simp_all
  ultimately show ?thesis
    using t by (simp add: tracks_def cut_before_def visible_text_single bounded_group_single)
qed

lemma bounded_group_absorb:
  assumes b: "bounded_group mc md cur" and ne: "cur \<noteq> []"
    and ctx: "chunk_text s = visible_text cur"
    and nov: "\<not> overflows mc md s (w_start (hd cur)) w"
  shows "bounded_group mc md (cur @ [w])"
proof -
  let ?p = "strip (visible_text cur @ '' '' @ strip (w_word w))"
  have len: "int (length ?p) \<le> mc" and dur: "round_double (w_end w - w_start (hd cur)) \<le> md"
    using nov ctx by (simp_all add: overflows_def)
  have vt: "visible_text (cur @ [w]) = ?p" by (rule visible_text_snoc)
  have l1: "length (visible_text cur) \<le> length ?p" and l2: "length (strip (w_word w)) \<le> length ?p"
    using strip_join_length[OF visible_text_stripped strip_idem] by blast+
  have nw: "\<not> overlong mc w" using l2 len by (simp add: overlong_def)
  have nc: "\<not> overlong mc v" if "v \<in> set cur" for v
  proof
    assume ov: "overlong mc v"
    with b that have "cur = [v]" by (simp add: bounded_group_def)
    then have "visible_text cur = strip (w_word v)" by (simp add: visible_text_single)
    with l1 len ov show False by (simp add: overlong_def)
  qed
  show ?thesis
    using ne len dur vt nw nc by (auto simp: bounded_group_def)
qed

lemma tracks_absorb:
  assumes t: "tracks mc md gs cur s" and c: "chunk_start_time s = Some cst"
    and nov: "\<not> overflows mc md s cst w" and ns: "\<not> silence_cut st s w"
  shows "if punctuation_cut pb n i w
         then tracks mc md (gs @ [cur @ [w]]) [] (loop_body mc md st pb n (i, w) s)
         else tracks mc md gs (cur @ [w]) (loop_body mc md st pb n (i, w) s)"
proof -
  from t c have ne: "cur \<noteq> []" and cst: "cst = w_start (hd cur)"
    and ctx: "chunk_text s = visible_text cur" and bc: "bounded_group mc md cur"
    by (simp_all add: tracks_def)
  have b: "bounded_group mc md (cur @ [w])"
    using bounded_group_absorb[OF bc ne ctx] nov cst by simp
  have ta: "tracks mc md gs (cur @ [w]) (absorb w s)"
    using t c ne b by (simp add: tracks_def absorb_def visible_text_snoc)
  have ca: "chunk_start_time (absorb w s) = Some cst" using c by (simp add: absorb_def)
  have ap: "append_chunk (absorb w s) = map chunk_of_words (gs @ [cur @ [w]])"
    using append_chunk_tracks(1)[OF ta ca] .
  have lb: "loop_body mc md st pb n (i, w) s =
     (if punctuation_cut pb n i w
      then (absorb w s)\<lparr>subtitles := append_chunk (absorb w s), chunk_start_time := None,
              chunk_end_time := None, chunk_text := [], prev_word_end := w_end w\<rparr>
      else (absorb w s)\<lparr>prev_word_end := w_end w\<rparr>)"
    using c nov ns by (rule loop_body_absorb)
  show ?thesis
  proof (cases "punctuation_cut pb n i w")
    case True
    then show ?thesis using lb ap ta b by (simp add: tracks_def bounded_group_Nil)
  next
    case False
    then show ?thesis using lb ta ca by (simp add: tracks_def)
  qed
qed

lemma tracks_step:
  assumes t: "tracks mc md gs cur s"
  shows "\<exists>gs' cur'. tracks mc md gs' cur' (loop_body mc md st pb n (i, w) s) \<and>
           concat gs' @ cur' = concat gs @ cur @ [w]"
proof (cases "chunk_start_time s")
  case None
  have "tracks mc md gs [w] (loop_body mc md st pb n (i, w) s)" and "cur = []"
    using tracks_open[OF t None] by simp_all
  then show ?thesis by auto
next
  case (Some cst)
  show ?thesis
  proof (cases "overflows mc md s cst w \<or> silence_cut st s w")
    case True
    have "tracks mc md (gs @ [cur]) [w] (loop_body mc md st pb n (i, w) s)"
      using tracks_cut[OF t Some True] .
    then show ?thesis by (intro exI[of _ "gs @ [cur]"] exI[of _ "[w]"]) simp
  next
    case False
    then have nov: "\<not> overflows mc md s cst w" and ns: "\<not> silence_cut st s w" by simp_all
    have ab: "if punctuation_cut pb n i w
         then tracks mc md (gs @ [cur @ [w]]) [] (loop_body mc md st pb n (i, w) s)
         else tracks mc md gs (cur @ [w]) (loop_body mc md st pb n (i, w) s)"
      using tracks_absorb[OF t Some nov ns] .
    show ?thesis
    proof (cases "punctuation_cut pb n i w")
      case True
      with ab show ?thesis by (intro exI[of _ "gs @ [cur @ [w]]"] exI[of _ "[]"]) simp
    next
      case False
      with ab show ?thesis by (intro exI[of _ gs] exI[of _ "cur @ [w]"]) simp
    qed
  qed
qed

lemma tracks_fold:
  assumes "tracks mc md gs cur s"
  shows "\<exists>gs' cur'. tracks mc md gs' cur' (fold (loop_body mc md st pb n) (enumerate k ws) s) \<and>
           concat gs' @ cur' = concat gs @ cur @ ws"
  using assms
proof (induction ws arbitrary: gs cur s k)
  case Nil
  then show ?case by auto
next
  case (Cons w ws)
  from tracks_step[OF Cons.prems] obtain gs1 cur1 where
    t1: "tracks mc md gs1 cur1 (loop_body mc md st pb n (k, w) s)"
    and c1: "concat gs1 @ cur1 = concat gs @ cur @ [w]" by blast
  from Cons.IH[OF t1] obtain gs2 cur2 where
    t2: "tracks mc md gs2 cur2 (fold (loop_body mc md st pb n) (enumerate (Suc k) ws) (loop_body mc md st pb n (k, w) s))"
    and c2: "concat gs2 @ cur2 = concat gs1 @ cur1 @ ws" by blast
  from c1 c2 have "concat gs2 @ cur2 = concat gs @ cur @ w # ws" by simp
  with t2 show ?case by auto
qed

lemma tracks_initial: "tracks mc md [] [] initial_state"
  by (simp add: tracks_def initial_state_def bounded_group_Nil)

lemma run_loop_tracks:
  "\<exists>gs cur. tracks mc md gs cur (run_loop mc md st pb ws) \<and> concat gs @ cur = ws"
  using tracks_fold[OF tracks_initial]
  by (simp add: run_loop_def)

lemma flush_tracks:
  assumes t: "tracks mc md gs cur s"
  shows "\<exists>groups rest. concat groups @ rest = concat gs @ cur \<and> [] \<notin> set groups \<and>
           (\<forall>w\<in>set rest. strip (w_word w) = []) \<and>
           flush s = map chunk_of_words groups \<and>
           (\<forall>g\<in>set groups. bounded_group mc md g)"
proof (cases "chunk_start_time s")
  case None
  with t have "cur = []" "chunk_text s = []" by (simp_all add: tracks_def)
  then have "flush s = subtitles s" by (simp add: flush_def strip_all_space)
  with t \<open>cur = []\<close> show ?thesis
    by (intro exI[of _ gs] exI[of _ "[]"]) (simp add: tracks_def)
next
  case (Some cst)
  with t have ne: "cur \<noteq> []" and ctx: "chunk_text s = visible_text cur"
    and bc: "bounded_group mc md cur" by (simp_all add: tracks_def)
  show ?thesis
  proof (cases "strip (chunk_text s) = []")
    case True
    then have "visible_text cur = []" using ctx by (simp add: visible_text_stripped)
    then have e: "\<forall>w\<in>set cur. strip (w_word w) = []" by (simp add: visible_text_eq_Nil)
    have "flush s = subtitles s" using True by (simp add: flush_def)
    with t e show ?thesis
      by (intro exI[of _ gs] exI[of _ cur]) (simp add: tracks_def)
  next
    case False
    then have "flush s = append_chunk s" by (simp add: flush_def)
    then have "flush s = map chunk_of_words (gs @ [cur])"
      using append_chunk_tracks(1)[OF t Some] by simp
    with t ne bc show ?thesis
      by (intro exI[of _ "gs @ [cur]"] exI[of _ "[]"]) (simp add: tracks_def)
  qed
qed

lemma build_subtitles_groups:
  "\<exists>groups rest. ws = concat groups @ rest \<and> [] \<notin> set groups \<and>
      (\<forall>w\<in>set rest. strip (w_word w) = []) \<and>
      build_subtitles mc md st pb ws = map chunk_of_words groups \<and>
      (\<forall>g\<in>set groups. bounded_group mc md g)"
proof -
  from run_loop_tracks[of mc md st pb ws] obtain gs cur where
    t: "tracks mc md gs cur (run_loop mc md st pb ws)" and c: "concat gs @ cur = ws" by blast
  from flush_tracks[OF t] c show ?thesis
    unfolding build_subtitles_def by metis
qed

section \<open>Decimal digits\<close>

lemma digit_char_zero: "digit_char 0 = CHR ''0''"
  by (simp add: digit_char_def)

lemma digit_cases: "d < 10 \<Longrightarrow> d \<in> {0, 1, 2, 3, 4, 5, 6, 7, 8, 9::nat}"
  by auto

lemma of_char_digit: "d < 10 \<Longrightarrow> of_char (digit_char d) = (48 + d :: nat)"
  using digit_cases[of d] by (auto simp: digit_char_def)

lemma is_digit_digit_char: "d < 10 \<Longrightarrow> is_digit (digit_char d)"
  using digit_cases[of d] by (auto simp: is_digit_def digit_char_def)

lemma str_nat_small: "n < 10 \<Longrightarrow> str_nat n = [digit_char n]"
  by (simp add: str_nat.simps)

lemma str_nat_big: "10 \<le> n \<Longrightarrow> str_nat n = str_nat (n div 10) @ [digit_char (n mod 10)]"
  by (subst str_nat.simps) simp

lemma str_nat_two: "10 \<le> n \<Longrightarrow> n < 100 \<Longrightarrow> str_nat n = two_digits n"
  by (simp add: str_nat_big str_nat_small two_digits_def)

lemma str_nat_three: "100 \<le> n \<Longrightarrow> n < 1000 \<Longrightarrow> str_nat n = three_digits n"
proof -
  assume a: "100 \<le> n" "n < 1000"
  then have "10 \<le> n div 10" "n div 10 < 100" by simp_all
  then have "str_nat (n div 10) = two_digits (n div 10)" by (rule str_nat_two)
  moreover have "n div 10 div 10 = n div 100" using div_mult2_eq[of n 10 10] by simp
  ultimately show ?thesis using a by (simp add: str_nat_big two_digits_def three_digits_def)
qed

lemma dec_value_snoc: "dec_value (s @ [c]) = 10 * dec_value s + (of_char c - 48)"
  by (simp add: dec_value_def)

lemma str_nat_props:
  "str_nat n \<noteq> [] \<and> (\<forall>c\<in>set (str_nat n). is_digit c) \<and> dec_value (str_nat n) = n"
proof (induction n rule: str_nat.induct)
  case (1 n)
  show ?case
  proof (cases "n < 10")
    case True
    then show ?thesis
      by (simp add: str_nat_small is_digit_digit_char dec_value_def of_char_digit)
  next
    case False
    then have b: "str_nat n = str_nat (n div 10) @ [digit_char (n mod 10)]"
      by (simp add: str_nat_big)
    have ih: "str_nat (n div 10) \<noteq> []" "\<forall>c\<in>set (str_nat (n div 10)). is_digit c"
      "dec_value (str_nat (n div 10)) = n div 10"
      using 1 False by simp_all
    show ?thesis
      using ih by (simp add: b dec_value_snoc is_digit_digit_char of_char_digit)
  qed
qed

lemma str_nat_length_small: "n < 10 \<Longrightarrow> length (str_nat n) = 1"
  by (simp add: str_nat_small)

lemma format_two_small: "n < 100 \<Longrightarrow> format_zero_pad 2 (int n) = two_digits n"
proof (cases "n < 10")
  case True
  then show ?thesis
    by (simp add: format_zero_pad_def str_nat_small two_digits_def digit_char_zero)
next
  case False
  assume "n < 100"
  with False have "str_nat n = two_digits n" by (simp add: str_nat_two)
  then show ?thesis by (simp add: format_zero_pad_def two_digits_def)
qed

lemma format_three_small: "n < 1000 \<Longrightarrow> format_zero_pad 3 (int n) = three_digits n"
proof -
  assume n: "n < 1000"
  consider "n < 10" | "10 \<le> n" "n < 100" | "100 \<le> n" by linarith
  then show ?thesis
  proof cases
    case 1
    then show ?thesis
      by (simp add: format_zero_pad_def str_nat_small three_digits_def digit_char_zero
          numeral_2_eq_2)
  next
    case 2
    then have "str_nat n = two_digits n" by (simp add: str_nat_two)
    then show ?thesis using 2
      by (simp add: format_zero_pad_def two_digits_def three_digits_def digit_char_zero)
  next
    case 3
    with n have "str_nat n = three_digits n" by (simp add: str_nat_three)
    then show ?thesis by (simp add: format_zero_pad_def three_digits_def)
  qed
qed

lemma dec_value_zeros: "dec_value (replicate k CHR ''0'' @ s) = dec_value s"
proof -
  have "foldl (\<lambda>a c. 10 * a + (of_char c - 48)) 0 (replicate k CHR ''0'') = (0::nat)"
    by (induction k) simp_all
  then show ?thesis by (simp add: dec_value_def)
qed

lemma format_two_props:
  "2 \<le> length (format_zero_pad 2 (int n)) \<and>
   (\<forall>c\<in>set (format_zero_pad 2 (int n)). is_digit c) \<and>
   dec_value (format_zero_pad 2 (int n)) = n"
proof -
  have z: "is_digit CHR ''0''" by (simp add: is_digit_def)
  have "length (replicate (2 - length (str_nat n)) CHR ''0'' @ str_nat n) \<ge> 2"
    by simp
  then show ?thesis
    using str_nat_props[of n] z by (auto simp: format_zero_pad_def dec_value_zeros)
qed

section \<open>Floor division and remainder of doubles\<close>

lemma digit_char_nonzero: "0 < d \<Longrightarrow> d < 10 \<Longrightarrow> digit_char d \<noteq> CHR ''0''"
  using digit_cases[of d] by (auto simp: digit_char_def)

lemma str_nat_no_leading_zero: "0 < n \<Longrightarrow> hd (str_nat n) \<noteq> CHR ''0''"
proof (induction n rule: str_nat.induct)
  case (1 n)
  show ?case
  proof (cases "n < 10")
    case True
    then show ?thesis using 1(2) by (simp add: str_nat_small digit_char_nonzero)
  next
    case False
    then have "0 < n div 10" by simp
    then have "hd (str_nat (n div 10)) \<noteq> CHR ''0''" using 1(1) False by simp
    moreover have "str_nat (n div 10) \<noteq> []" using str_nat_props[of "n div 10"] by simp
    ultimately show ?thesis using False by (simp add: str_nat_big)
  qed
qed

lemma format_two_leading:
  "2 < length (format_zero_pad 2 (int n)) \<longrightarrow> hd (format_zero_pad 2 (int n)) \<noteq> CHR ''0''"
proof (cases "length (str_nat n) < 2")
  case True
  then have "length (format_zero_pad 2 (int n)) = 2"
    using str_nat_props[of n] by (cases "str_nat n") (auto simp: format_zero_pad_def)
  then show ?thesis by simp
next
  case False
  then have f: "format_zero_pad 2 (int n) = str_nat n" by (simp add: format_zero_pad_def)
  have "\<not> n < 10" using False by (auto simp: str_nat_small)
  then have "hd (str_nat n) \<noteq> CHR ''0''" by (intro str_nat_no_leading_zero) simp
  with f show ?thesis by simp
qed

lemma py_int_nonneg: "0 \<le> x \<Longrightarrow> py_int x = \<lfloor>x\<rfloor>"
  by (simp add: py_int_def)

lemma floor_div_const:
  fixes x :: real and k :: int
  assumes "0 < k"
  shows "\<lfloor>x / of_int k\<rfloor> = \<lfloor>x\<rfloor> div k"
  using assms by (simp add: floor_divide_real_eq_div)

lemma py_fmod_pos:
  fixes k :: int
  assumes "0 \<le> x" "0 < k"
  shows "py_fmod x (of_int k) = x - of_int (k * (\<lfloor>x\<rfloor> div k))"
proof -
  have "0 \<le> x / of_int k" using assms by simp
  then have "py_int (x / of_int k) = \<lfloor>x / of_int k\<rfloor>" by (rule py_int_nonneg)
  also have "\<dots> = \<lfloor>x\<rfloor> div k" using assms(2) by (rule floor_div_const)
  finally show ?thesis by (simp add: py_fmod_def)
qed

lemma py_fmod_floor:
  fixes k :: int
  assumes "0 \<le> x" "0 < k"
  shows "\<lfloor>py_fmod x (of_int k)\<rfloor> = \<lfloor>x\<rfloor> mod k"
proof -
  have "\<lfloor>py_fmod x (of_int k)\<rfloor> = \<lfloor>x\<rfloor> - k * (\<lfloor>x\<rfloor> div k)"
    unfolding py_fmod_pos[OF assms] by (simp only: floor_diff_of_int)
  then show ?thesis by (simp add: minus_mult_div_eq_mod)
qed

lemma py_fmod_range:
  fixes k :: int
  assumes "0 \<le> x" "0 < k"
  shows "0 \<le> py_fmod x (of_int k)" and "py_fmod x (of_int k) < of_int k"
proof -
  have f: "\<lfloor>py_fmod x (of_int k)\<rfloor> = \<lfloor>x\<rfloor> mod k" using assms by (rule py_fmod_floor)
  have "0 \<le> \<lfloor>py_fmod x (of_int k)\<rfloor>" using f assms(2) by simp
  then show "0 \<le> py_fmod x (of_int k)" by simp
  have "\<lfloor>py_fmod x (of_int k)\<rfloor> < k" using f assms(2) by simp
  then show "py_fmod x (of_int k) < of_int k" by (simp add: floor_less_iff)
qed

lemma py_mod_pos:
  fixes k :: int
  assumes "0 \<le> x" "0 < k"
  shows "py_mod x (of_int k) = py_fmod x (of_int k)"
  using py_fmod_range(1)[OF assms] assms(2) by (simp add: py_mod_def Let_def)

lemma py_floordiv_nonneg:
  fixes k :: int
  assumes "0 \<le> x" "0 < k"
  shows "0 \<le> py_floordiv x (of_int k)"
proof -
  let ?m = "py_fmod x (of_int k)"
  let ?d = "round_double (round_double (x - ?m) / of_int k)"
  have m: "0 \<le> ?m" using assms by (rule py_fmod_range)
  have "x - ?m = of_int (k * (\<lfloor>x\<rfloor> div k))" by (simp add: py_fmod_pos[OF assms])
  moreover have "0 \<le> k * (\<lfloor>x\<rfloor> div k)"
    using assms by (simp add: pos_imp_zdiv_nonneg_iff)
  ultimately have "0 \<le> x - ?m" by (simp only: of_int_0_le_iff)
  then have "0 \<le> round_double (x - ?m)" by (rule round_double_nonneg)
  then have "0 \<le> round_double (x - ?m) / of_int k" using assms(2) by simp
  then have d: "0 \<le> ?d" by (rule round_double_nonneg)
  have f: "0 \<le> (of_int \<lfloor>?d\<rfloor> :: real)" using d by simp
  then have "0 \<le> round_double (of_int \<lfloor>?d\<rfloor> + 1)" by (intro round_double_nonneg) simp
  then show ?thesis
    using m assms(2) f by (simp add: py_floordiv_def Let_def)
qed

lemma py_floordiv_exact:
  fixes k :: int
  assumes x: "0 \<le> x" and k: "0 < k" and b: "x < 2 ^ 53"
  shows "py_floordiv x (of_int k) = of_int (\<lfloor>x\<rfloor> div k)"
proof -
  let ?q = "\<lfloor>x\<rfloor> div k"
  let ?m = "py_fmod x (of_int k)"
  have fx: "\<lfloor>x\<rfloor> < 2 ^ 53"
  proof -
    have "of_int \<lfloor>x\<rfloor> \<le> x" by simp
    with b have "of_int \<lfloor>x\<rfloor> < (2::real) ^ 53" by linarith
    then show ?thesis by (metis of_int_less_iff of_int_numeral of_int_power)
  qed
  have x0: "0 \<le> \<lfloor>x\<rfloor>" using x by simp
  have q0: "0 \<le> ?q" using x0 k by (simp add: pos_imp_zdiv_nonneg_iff)
  have kq: "k * ?q \<le> \<lfloor>x\<rfloor>"
    using mult_div_mod_eq[of k "\<lfloor>x\<rfloor>"] pos_mod_sign[OF k, of "\<lfloor>x\<rfloor>"] by linarith
  have kq0: "0 \<le> k * ?q" using q0 k by simp
  have qq: "?q \<le> k * ?q" using q0 k by (simp add: mult_le_cancel_right1)
  have "k * ?q < 2 ^ 53" using kq fx by (rule le_less_trans)
  then have a1: "\<bar>k * ?q\<bar> < 2 ^ 53" using kq0 by (simp only: abs_of_nonneg)
  have "?q < 2 ^ 53" using qq \<open>k * ?q < 2 ^ 53\<close> by (rule le_less_trans)
  then have a2: "\<bar>?q\<bar> < 2 ^ 53" using q0 by (simp only: abs_of_nonneg)
  have m: "0 \<le> ?m" using x k by (rule py_fmod_range)
  have "x - ?m = of_int (k * ?q)" by (simp add: py_fmod_pos[OF x k])
  then have "round_double (x - ?m) = of_int (k * ?q)"
    using round_double_of_int[OF a1] by simp
  then have "round_double (x - ?m) / of_int k = of_int ?q" using k by simp
  then have d: "round_double (round_double (x - ?m) / of_int k) = of_int ?q"
    using round_double_of_int[OF a2] by simp
  show ?thesis
    using m k by (simp add: py_floordiv_def Let_def d)
qed

section \<open>Hours, minutes, seconds and milliseconds\<close>

lemma hours_eq:
  assumes "0 \<le> s" "s < 2 ^ 53"
  shows "py_int (py_floordiv s 3600) = \<lfloor>s\<rfloor> div 3600"
proof -
  have "py_floordiv s (of_int 3600) = of_int (\<lfloor>s\<rfloor> div 3600)"
    using assms by (intro py_floordiv_exact) simp_all
  moreover have "0 \<le> \<lfloor>s\<rfloor> div 3600" using assms(1) by (simp add: pos_imp_zdiv_nonneg_iff)
  ultimately show ?thesis by (simp add: py_int_def)
qed

lemma hours_nonneg:
  assumes "0 \<le> s"
  shows "0 \<le> py_int (py_floordiv s 3600)"
proof -
  have "0 \<le> py_floordiv s (of_int 3600)" using assms by (intro py_floordiv_nonneg) simp_all
  then show ?thesis by (simp add: py_int_def)
qed

lemma minutes_eq:
  assumes "0 \<le> s"
  shows "py_int (py_floordiv (py_mod s 3600) 60) = \<lfloor>s\<rfloor> mod 3600 div 60"
proof -
  let ?m = "py_fmod s (of_int 3600)"
  have pm: "py_mod s (of_int 3600) = ?m" using assms by (intro py_mod_pos) simp_all
  have m0: "0 \<le> ?m" and m1: "?m < of_int 3600"
    using py_fmod_range[of s 3600] assms by simp_all
  have fl: "\<lfloor>?m\<rfloor> = \<lfloor>s\<rfloor> mod 3600" using assms by (intro py_fmod_floor) simp_all
  have "?m < 2 ^ 53" using m1 by simp
  then have "py_floordiv ?m (of_int 60) = of_int (\<lfloor>?m\<rfloor> div 60)"
    using m0 by (intro py_floordiv_exact) simp_all
  moreover have "0 \<le> \<lfloor>s\<rfloor> mod 3600 div 60" by (simp add: pos_imp_zdiv_nonneg_iff)
  ultimately show ?thesis using pm fl by (simp add: py_int_def)
qed

lemma secs_eq:
  assumes "0 \<le> s"
  shows "py_int (py_mod s 60) = \<lfloor>s\<rfloor> mod 60"
proof -
  let ?m = "py_fmod s (of_int 60)"
  have pm: "py_mod s (of_int 60) = ?m" using assms by (intro py_mod_pos) simp_all
  have m0: "0 \<le> ?m" using py_fmod_range(1)[of s 60] assms by simp
  have fl: "\<lfloor>?m\<rfloor> = \<lfloor>s\<rfloor> mod 60" using assms by (intro py_fmod_floor) simp_all
  show ?thesis using pm m0 fl by (simp add: py_int_def)
qed

lemma floor_of_int_eq: "s = of_int n \<Longrightarrow> of_int \<lfloor>s\<rfloor> = (s::real)"
  by simp

lemma fraction_of_double:
  assumes d: "round_double s = s" and s: "0 \<le> s"
  shows "round_double (s - of_int \<lfloor>s\<rfloor>) = s - of_int \<lfloor>s\<rfloor>"
    and "s - of_int \<lfloor>s\<rfloor> \<le> 1 - 1 / 2 ^ 53"
proof -
  let ?f = "s - of_int \<lfloor>s\<rfloor>"
  have f0: "0 \<le> ?f" and f1: "?f < 1" by linarith+
  have "round_double ?f = ?f \<and> ?f \<le> 1 - 1 / 2 ^ 53"
  proof (cases "s = 0")
    case True
    then show ?thesis by simp
  next
    case False
    with s have sp: "0 < s" by simp
    let ?g = "max (float_exponent s) (- 1022) - 52"
    have q: "quantum s = 2 powi ?g" using sp by (simp add: quantum_def)
    obtain N where N: "s = of_int N * quantum s" "0 < N" "N < 2 ^ 53"
      using round_double_grid[OF d sp] by blast
    show ?thesis
    proof (cases "0 \<le> ?g")
      case True
      then have "quantum s = of_int (2 ^ nat ?g)" unfolding q by (rule two_powi_nat)
      then have "s = of_int (N * 2 ^ nat ?g)" using N(1) by simp
      then have "of_int \<lfloor>s\<rfloor> = s" by (rule floor_of_int_eq)
      then have z: "s - of_int \<lfloor>s\<rfloor> = 0" by linarith
      show ?thesis unfolding z by simp
    next
      case False
      define j where "j = nat (- ?g)"
      have gj: "?g = - int j" using False by (simp add: j_def)
      have "(2::real) powi (- int j) = 1 / 2 powi (int j)" by (rule power_int_minus_divide)
      then have qj: "quantum s = 1 / 2 ^ j"
        unfolding q gj by simp
      let ?M = "N - \<lfloor>s\<rfloor> * 2 ^ j"
      have one: "2 ^ j * quantum s = 1" unfolding qj by simp
      have "of_int ?M * quantum s =
              of_int N * quantum s - of_int \<lfloor>s\<rfloor> * (2 ^ j * quantum s)"
        by (simp add: algebra_simps)
      also have "\<dots> = ?f" unfolding one by (simp add: N(1)[symmetric])
      finally have fm: "?f = of_int ?M * quantum s" by simp
      have p: "(0::real) < 2 ^ j" by simp
      have "?f * 2 ^ j = of_int ?M * (2 ^ j * quantum s)" by (subst fm) simp
      then have em: "of_int ?M = ?f * 2 ^ j" unfolding one by simp
      have "0 \<le> ?f * 2 ^ j" using f0 by (intro mult_nonneg_nonneg) simp_all
      then have m0r: "0 \<le> (of_int ?M :: real)" unfolding em .
      have "?f * 2 ^ j < 1 * 2 ^ j" using f1 p by (rule mult_strict_right_mono)
      then have lt: "(of_int ?M :: real) < 2 ^ j" unfolding em by simp
      have m0: "0 \<le> ?M" using m0r by (simp only: of_int_0_le_iff)
      have "0 \<le> \<lfloor>s\<rfloor> * 2 ^ j" using s by simp
      then have "?M \<le> N" by simp
      with N(3) m0 have am: "\<bar>?M\<bar> < 2 ^ 53" by simp
      have g74: "- 1074 \<le> ?g" by simp
      have ex: "round_double ?f = ?f"
        using round_double_exact[OF am g74] fm q by simp
      have bd: "?f \<le> 1 - 1 / 2 ^ 53"
      proof (cases "j \<le> 53")
        case True
        have "(of_int ?M :: real) < of_int (2 ^ j)" using lt by simp
        then have "?M < 2 ^ j" by (simp only: of_int_less_iff)
        then have "?M \<le> 2 ^ j - 1" by simp
        then have "(of_int ?M :: real) \<le> of_int (2 ^ j - 1)" by (simp only: of_int_le_iff)
        then have "(of_int ?M :: real) \<le> 2 ^ j - 1" by simp
        then have "?f \<le> (2 ^ j - 1) * (1 / 2 ^ j)"
          unfolding fm qj by (intro mult_right_mono) simp_all
        also have "\<dots> = 1 - 1 / 2 ^ j" by (simp add: field_simps)
        also have "\<dots> \<le> 1 - 1 / 2 ^ 53"
        proof -
          have "(2::real) ^ j \<le> 2 ^ 53" using True by (intro power_increasing) simp_all
          then have "1 / (2::real) ^ 53 \<le> 1 / 2 ^ j"
            by (intro divide_left_mono) simp_all
          then show ?thesis by linarith
        qed
        finally show ?thesis .
      next
        case False
        then have "float_exponent s + 1 \<le> - 1" by (simp add: j_def)
        then have "(2::real) powi (float_exponent s + 1) \<le> 2 powi (- 1)" by (rule two_powi_le)
        with float_exponent_bounds(2)[OF sp] have "s < 1 / 2" by simp
        moreover have "0 \<le> (of_int \<lfloor>s\<rfloor> :: real)" using s by simp
        ultimately have "?f < 1 / 2" by linarith
        then show ?thesis by simp
      qed
      from ex bd show ?thesis by simp
    qed
  qed
  then show "round_double ?f = ?f" and "?f \<le> 1 - 1 / 2 ^ 53" by simp_all
qed

lemma round_product_bounds:
  assumes y0: "0 \<le> y" and y1: "y \<le> 1000 - 1000 / 2 ^ 53"
  shows "\<lfloor>y\<rfloor> \<le> \<lfloor>round_double y\<rfloor>" and "\<lfloor>round_double y\<rfloor> \<le> \<lfloor>y\<rfloor> + 1"
    and "round_double y < 1000"
proof -
  have yl: "y < 1000" using y1 by simp
  have n0: "0 \<le> \<lfloor>y\<rfloor>" using y0 by simp
  have n1: "\<lfloor>y\<rfloor> < 1000" using yl by linarith
  have a: "\<bar>\<lfloor>y\<rfloor>\<bar> < 2 ^ 53" "\<bar>\<lfloor>y\<rfloor> + 1\<bar> < 2 ^ 53" using n0 n1 by simp_all
  have "round_double (of_int \<lfloor>y\<rfloor>) \<le> round_double y" by (intro round_double_mono) simp
  then have "of_int \<lfloor>y\<rfloor> \<le> round_double y" using round_double_of_int[OF a(1)] by simp
  then show "\<lfloor>y\<rfloor> \<le> \<lfloor>round_double y\<rfloor>" by (simp add: le_floor_iff)
  have "round_double y \<le> round_double (of_int (\<lfloor>y\<rfloor> + 1))"
    by (intro round_double_mono) linarith
  then have "round_double y \<le> of_int (\<lfloor>y\<rfloor> + 1)" using round_double_of_int[OF a(2)] by simp
  then show "\<lfloor>round_double y\<rfloor> \<le> \<lfloor>y\<rfloor> + 1" by (metis floor_mono floor_of_int)
  show "round_double y < 1000"
  proof (cases "y < 512")
    case True
    then have "round_double y \<le> round_double (of_int 512)" by (intro round_double_mono) simp
    also have "\<dots> = of_int 512" by (intro round_double_of_int) simp
    finally show ?thesis by simp
  next
    case False
    have b1: "2 powi 9 \<le> \<bar>y\<bar>" using False y0 by simp
    have b2: "\<bar>y\<bar> < 2 powi (9 + 1)" using yl y0 by simp
    have r: "round_double y =
               of_int (round_half_even (y / 2 powi (9 - 52))) * 2 powi (9 - 52)"
      using b1 b2 by (rule round_double_binade) simp
    have p: "(2::real) powi (9 - 52) = 1 / 2 ^ 43" by (simp add: power_int_minus_divide)
    let ?n = "1000 * 2 ^ 43 - (1::int)"
    have "y / (1 / 2 ^ 43) \<le> (1000 - 1000 / 2 ^ 53) * 2 ^ 43" using y1 by simp
    also have "\<dots> < of_int ?n + 1 / 2" by simp
    finally have "round_half_even (y / (1 / 2 ^ 43)) \<le> ?n" by (rule round_half_even_low)
    then have "(of_int (round_half_even (y / (1 / 2 ^ 43))) :: real) \<le> of_int ?n"
      by (simp only: of_int_le_iff)
    then have "round_double y \<le> of_int ?n * (1 / 2 ^ 43)"
      unfolding r p by (intro mult_right_mono) simp_all
    also have "\<dots> < 1000" by simp
    finally show ?thesis .
  qed
qed

lemma millis_eq:
  assumes d: "is_double s" and s: "0 \<le> s"
  shows "py_int (round_double (round_double (s - of_int (py_int s)) * 1000)) =
           \<lfloor>round_double ((s - of_int \<lfloor>s\<rfloor>) * 1000)\<rfloor>"
    and "\<lfloor>s * 1000\<rfloor> mod 1000 \<le> \<lfloor>round_double ((s - of_int \<lfloor>s\<rfloor>) * 1000)\<rfloor>"
    and "\<lfloor>round_double ((s - of_int \<lfloor>s\<rfloor>) * 1000)\<rfloor> \<le> \<lfloor>s * 1000\<rfloor> mod 1000 + 1"
    and "\<lfloor>round_double ((s - of_int \<lfloor>s\<rfloor>) * 1000)\<rfloor> < 1000"
proof -
  let ?f = "s - of_int \<lfloor>s\<rfloor>"
  let ?y = "?f * 1000"
  have r: "round_double s = s" using d by (simp add: is_double_def)
  have fe: "round_double ?f = ?f" and fb: "?f \<le> 1 - 1 / 2 ^ 53"
    using fraction_of_double[OF r s] by simp_all
  have f0: "0 \<le> ?f" by linarith
  have y0: "0 \<le> ?y" using f0 by simp
  have y1: "?y \<le> 1000 - 1000 / 2 ^ 53" using fb by simp
  have i: "py_int s = \<lfloor>s\<rfloor>" using s by (rule py_int_nonneg)
  have r0: "0 \<le> round_double ?y" using y0 by (rule round_double_nonneg)
  show "py_int (round_double (round_double (s - of_int (py_int s)) * 1000)) =
           \<lfloor>round_double ?y\<rfloor>"
    using i fe r0 by (simp add: py_int_def)
  have "(s - of_int \<lfloor>s\<rfloor>) * 1000 = s * 1000 - of_int (1000 * \<lfloor>s\<rfloor>)"
    by (simp add: algebra_simps)
  then have f: "\<lfloor>?y\<rfloor> = \<lfloor>s * 1000\<rfloor> - 1000 * \<lfloor>s\<rfloor>"
    by (simp only: floor_diff_of_int)
  have t: "\<lfloor>s * 1000\<rfloor> div 1000 = \<lfloor>s\<rfloor>"
    using floor_div_const[of 1000 "s * 1000"] by simp
  have "\<lfloor>s * 1000\<rfloor> - 1000 * \<lfloor>s\<rfloor> = \<lfloor>s * 1000\<rfloor> mod 1000"
    using t minus_mult_div_eq_mod[of "\<lfloor>s * 1000\<rfloor>" 1000] by simp
  with f have g: "\<lfloor>?y\<rfloor> = \<lfloor>s * 1000\<rfloor> mod 1000" by simp
  show "\<lfloor>s * 1000\<rfloor> mod 1000 \<le> \<lfloor>round_double ?y\<rfloor>"
    using round_product_bounds(1)[OF y0 y1] g by simp
  show "\<lfloor>round_double ?y\<rfloor> \<le> \<lfloor>s * 1000\<rfloor> mod 1000 + 1"
    using round_product_bounds(2)[OF y0 y1] g by simp
  show "\<lfloor>round_double ?y\<rfloor> < 1000"
    using round_product_bounds(3)[OF y0 y1] by (simp add: floor_less_iff)
qed

section \<open>The fields of a timestamp\<close>

lemma mod_3600_div_60:
  fixes t :: int
  shows "t mod 3600 div 60 = t div 60 mod 60"
proof -
  have e3: "(60::int) * 60 = 3600" by simp
  have "t mod (60 * 60) = 60 * (t div 60 mod 60) + t mod 60"
    by (rule zmod_zmult2_eq) simp
  then have "t mod 3600 = t mod 60 + 60 * (t div 60 mod 60)"
    unfolding e3 by (simp only: add.commute)
  then have "t mod 3600 div 60 = (t mod 60 + 60 * (t div 60 mod 60)) div 60"
    by (simp only:)
  also have "\<dots> = t div 60 mod 60 + t mod 60 div 60"
    by (rule div_mult_self2) simp
  also have "t mod 60 div 60 = 0"
    by (rule div_pos_pos_trivial) simp_all
  finally show ?thesis by (simp only: add_0_right)
qed

lemma convert_fields:
  assumes d: "is_double seconds" and s: "0 \<le> seconds"
  shows "convert_seconds_to_srt_time seconds =
           format_zero_pad 2 (int (nat (py_int (py_floordiv seconds 3600)))) @ '':'' @
           format_zero_pad 2 (int (nat \<lfloor>seconds\<rfloor> div 60 mod 60)) @ '':'' @
           format_zero_pad 2 (int (nat \<lfloor>seconds\<rfloor> mod 60)) @ '','' @
           format_zero_pad 3
             (int (nat \<lfloor>round_double ((seconds - of_int \<lfloor>seconds\<rfloor>) * 1000)\<rfloor>))"
proof -
  let ?t = "\<lfloor>seconds\<rfloor>"
  let ?r = "\<lfloor>round_double ((seconds - of_int \<lfloor>seconds\<rfloor>) * 1000)\<rfloor>"
  have t0: "0 \<le> ?t" using s by simp
  have h: "int (nat (py_int (py_floordiv seconds 3600))) = py_int (py_floordiv seconds 3600)"
    using hours_nonneg[OF s] by simp
  have mi: "py_int (py_floordiv (py_mod seconds 3600) 60) = int (nat ?t div 60 mod 60)"
    using minutes_eq[OF s] mod_3600_div_60[of ?t] t0 by (simp add: zdiv_int zmod_int)
  have sc: "py_int (py_mod seconds 60) = int (nat ?t mod 60)"
    using secs_eq[OF s] t0 by (simp add: zmod_int)
  have "0 \<le> \<lfloor>seconds * 1000\<rfloor> mod 1000" by simp
  then have r0: "0 \<le> ?r" using millis_eq(2)[OF d s] by linarith
  have ms: "py_int (round_double (round_double (seconds - of_int (py_int seconds)) * 1000)) =
              int (nat ?r)"
    using millis_eq(1)[OF d s] r0 by simp
  show ?thesis
    unfolding convert_seconds_to_srt_time_def Let_def h mi sc ms ..
qed

lemma convert_fields_small:
  assumes d: "is_double seconds" and s: "0 \<le> seconds" and b: "seconds < 2 ^ 53"
  shows "convert_seconds_to_srt_time seconds =
           format_zero_pad 2 (\<lfloor>seconds\<rfloor> div 3600) @ '':'' @
           format_zero_pad 2 (\<lfloor>seconds\<rfloor> div 60 mod 60) @ '':'' @
           format_zero_pad 2 (\<lfloor>seconds\<rfloor> mod 60) @ '','' @
           format_zero_pad 3 \<lfloor>round_double ((seconds - of_int \<lfloor>seconds\<rfloor>) * 1000)\<rfloor>"
proof -
  let ?t = "\<lfloor>seconds\<rfloor>"
  have t0: "0 \<le> ?t" using s by simp
  have h: "int (nat (py_int (py_floordiv seconds 3600))) = ?t div 3600"
    using hours_eq[OF s b] t0 by (simp add: pos_imp_zdiv_nonneg_iff)
  have mi: "int (nat ?t div 60 mod 60) = ?t div 60 mod 60"
    using t0 by (simp add: zdiv_int zmod_int)
  have sc: "int (nat ?t mod 60) = ?t mod 60" using t0 by (simp add: zmod_int)
  have "0 \<le> \<lfloor>seconds * 1000\<rfloor> mod 1000" by simp
  then have r0: "0 \<le> \<lfloor>round_double ((seconds - of_int ?t) * 1000)\<rfloor>"
    using millis_eq(2)[OF d s] by linarith
  then have ms: "int (nat \<lfloor>round_double ((seconds - of_int ?t) * 1000)\<rfloor>) =
                   \<lfloor>round_double ((seconds - of_int ?t) * 1000)\<rfloor>" by simp
  show ?thesis
    using convert_fields[OF d s] unfolding h mi sc ms .
qed

lemma is_double_dyadic:
  assumes "\<bar>m\<bar> < 2 ^ 53" "- 1074 \<le> k" "k \<le> 970"
  shows "is_double (of_int m * 2 powi k)"
proof -
  have "of_int \<bar>m\<bar> < (2::real) ^ 53"
  proof -
    have "(of_int \<bar>m\<bar> :: real) < of_int (2 ^ 53)" using assms(1) by (simp only: of_int_less_iff)
    then show ?thesis by simp
  qed
  then have "of_int \<bar>m\<bar> * 2 powi k < 2 ^ 53 * (2::real) powi k"
    by (intro mult_strict_right_mono) simp_all
  also have "\<dots> = 2 powi (53 + k)" using two_powi_split[of 53 k] by simp
  also have "\<dots> \<le> 2 powi 1024" using assms(3) by (intro two_powi_le) simp
  finally have "\<bar>of_int m * 2 powi k\<bar> < (2::real) ^ 1024" by (simp add: abs_mult)
  then show ?thesis
    using round_double_exact[OF assms(1,2)] by (simp add: is_double_def)
qed

lemma is_double_examples:
  "is_double 0" "is_double 1" "is_double 2" "is_double (7323 / 2)" "is_double (1440003 / 4)"
  "is_double double_0_29"
proof -
  show "is_double 0" using is_double_dyadic[of 0 0] by simp
  show "is_double 1" using is_double_dyadic[of 1 0] by simp
  show "is_double 2" using is_double_dyadic[of 2 0] by simp
  show "is_double (7323 / 2)" using is_double_dyadic[of 7323 "- 1"] by simp
  show "is_double (1440003 / 4)" using is_double_dyadic[of 1440003 "- 2"] by simp
  show "is_double double_0_29"
    using is_double_dyadic[of 5224175567749775 "- 54"] by (simp add: double_0_29_def)
qed

lemma round_double_small_ints:
  "round_double 1 = 1" "round_double 500 = 500" "round_double 750 = 750"
  using round_double_of_int[of 1] round_double_of_int[of 500] round_double_of_int[of 750]
  by simp_all

lemma format_small_values:
  "format_zero_pad 2 0 = ''00''" "format_zero_pad 2 1 = ''01''" "format_zero_pad 2 2 = ''02''"
  "format_zero_pad 3 0 = ''000''" "format_zero_pad 3 500 = ''500''"
  "format_zero_pad 3 750 = ''750''" "format_zero_pad 3 290 = ''290''"
  "format_zero_pad 2 100 = ''100''"
proof -
  show "format_zero_pad 2 0 = ''00''"
    using format_two_small[of 0] by (simp add: two_digits_def digit_char_def)
  show "format_zero_pad 2 1 = ''01''"
    using format_two_small[of 1] by (simp add: two_digits_def digit_char_def)
  show "format_zero_pad 2 2 = ''02''"
    using format_two_small[of 2] by (simp add: two_digits_def digit_char_def)
  show "format_zero_pad 3 0 = ''000''"
    using format_three_small[of 0] by (simp add: three_digits_def digit_char_def)
  show "format_zero_pad 3 500 = ''500''"
    using format_three_small[of 500] by (simp add: three_digits_def digit_char_def)
  show "format_zero_pad 3 750 = ''750''"
    using format_three_small[of 750] by (simp add: three_digits_def digit_char_def)
  show "format_zero_pad 3 290 = ''290''"
    using format_three_small[of 290] by (simp add: three_digits_def digit_char_def)
  have "str_nat 100 = ''100''"
    by (simp add: str_nat_big str_nat_small digit_char_def)
  then show "format_zero_pad 2 100 = ''100''"
    by (simp add: format_zero_pad_def)
qed

lemma convert_small_values:
  "convert_seconds_to_srt_time 0 = ''00:00:00,000''"
  "convert_seconds_to_srt_time 1 = ''00:00:01,000''"
  "convert_seconds_to_srt_time 2 = ''00:00:02,000''"
  "convert_seconds_to_srt_time (7323 / 2) = ''01:01:01,500''"
  "convert_seconds_to_srt_time (1440003 / 4) = ''100:00:00,750''"
proof -
  show "convert_seconds_to_srt_time 0 = ''00:00:00,000''"
    using convert_fields_small[OF is_double_examples(1)] by (simp add: format_small_values)
  show "convert_seconds_to_srt_time 1 = ''00:00:01,000''"
    using convert_fields_small[OF is_double_examples(2)] by (simp add: format_small_values)
  show "convert_seconds_to_srt_time 2 = ''00:00:02,000''"
    using convert_fields_small[OF is_double_examples(3)] by (simp add: format_small_values)
  have "\<lfloor>7323 / 2 :: real\<rfloor> = 3661" by simp
  then show "convert_seconds_to_srt_time (7323 / 2) = ''01:01:01,500''"
    using convert_fields_small[OF is_double_examples(4)]
    by (simp add: format_small_values round_double_small_ints)
  have "\<lfloor>1440003 / 4 :: real\<rfloor> = 360000" by simp
  then show "convert_seconds_to_srt_time (1440003 / 4) = ''100:00:00,750''"
    using convert_fields_small[OF is_double_examples(5)]
    by (simp add: format_small_values round_double_small_ints)
qed

lemma round_double_290:
  "round_double (double_0_29 * 1000) = 290"
proof -
  let ?y = "double_0_29 * 1000"
  have v: "?y = 5224175567749775000 / 18014398509481984" by (simp add: double_0_29_def)
  have b1: "2 powi 8 \<le> \<bar>?y\<bar>" unfolding v by simp
  have b2: "\<bar>?y\<bar> < 2 powi (8 + 1)" unfolding v by simp
  have r: "round_double ?y = of_int (round_half_even (?y / 2 powi (8 - 52))) * 2 powi (8 - 52)"
    using b1 b2 by (rule round_double_binade) simp
  have p: "(2::real) powi (8 - 52) = 1 / 17592186044416" by (simp add: power_int_minus_divide)
  have q: "?y / (1 / 17592186044416) = 5224175567749775000 / 1024" unfolding v by simp
  have f: "\<lfloor>5224175567749775000 / 1024 :: real\<rfloor> = 5101733952880639" by simp
  have "round_half_even (5224175567749775000 / 1024) = 5101733952880640"
    unfolding round_half_even_def Let_def f by simp
  then show ?thesis unfolding r p q by simp
qed

section \<open>Groups of a sorted word list\<close>

lemma sub_text_chunk_of_words: "sub_text (chunk_of_words g) = visible_text g"
  by (simp add: chunk_of_words_def)

lemma trimmed_texts_concat: "trimmed_texts (concat gs) = concat (map trimmed_texts gs)"
  by (induction gs) (simp_all add: trimmed_texts_def)



lemma sorted_group_starts:
  assumes "sorted (map f (concat gs))" "[] \<notin> set gs"
  shows "sorted (map (\<lambda>g. f (hd g)) gs) \<and> (\<forall>g\<in>set gs. f (hd g) \<le> f (last g))"
  using assms
proof (induction gs)
  case Nil
  then show ?case by simp
next
  case (Cons g gs)
  from Cons.prems have ne: "g \<noteq> []" and gs: "[] \<notin> set gs" by auto
  from Cons.prems have sg: "sorted (map f g)" and sr: "sorted (map f (concat gs))"
    and le: "\<forall>x\<in>set g. \<forall>h\<in>set gs. \<forall>y\<in>set h. f x \<le> f y"
    by (auto simp: sorted_append)
  have ih: "sorted (map (\<lambda>g. f (hd g)) gs)" "\<forall>g\<in>set gs. f (hd g) \<le> f (last g)"
    using Cons.IH[OF sr gs] by simp_all
  have hl: "f (hd g) \<le> f (last g)"
  proof (cases g)
    case Nil
    with ne show ?thesis by simp
  next
    case (Cons x xs)
    then have "last g \<in> set (x # xs)" using ne by (metis last_in_set)
    then show ?thesis using sg Cons by auto
  qed
  have "f (hd g) \<le> f (hd h)" if "h \<in> set gs" for h
  proof -
    from that gs have "h \<noteq> []" by auto
    then have "hd h \<in> set h" by simp
    moreover have "hd g \<in> set g" using ne by simp
    ultimately show ?thesis using le that by blast
  qed
  with ih hl show ?case by auto
qed

section \<open>The state after a prefix of the words\<close>

lemma state_after_all:
  "state_after mc md st pb ws (length ws) = run_loop mc md st pb ws"
  by (simp add: state_after_def run_loop_def)

lemma state_after_Suc:
  assumes "k < length ws"
  shows "state_after mc md st pb ws (Suc k) =
           loop_body mc md st pb (length ws) (k, ws ! k) (state_after mc md st pb ws k)"
proof -
  have "take (Suc k) (enumerate 0 ws) = take k (enumerate 0 ws) @ [(k, ws ! k)]"
    using assms by (simp add: take_Suc_conv_app_nth nth_enumerate_eq)
  then show ?thesis by (simp add: state_after_def)
qed

lemma take_enumerate: "take k (enumerate n xs) = enumerate n (take k xs)"
proof (induction xs arbitrary: n k)
  case Nil
  then show ?case by simp
next
  case (Cons x xs)
  then show ?case by (cases k) simp_all
qed

lemma state_after_tracks:
  "\<exists>gs cur. tracks mc md gs cur (state_after mc md st pb ws k)"
  using tracks_fold[OF tracks_initial, of mc md st pb "length ws" 0 "take k ws"]
  by (auto simp: state_after_def take_enumerate)

lemma state_after_stripped:
  "strip (chunk_text (state_after mc md st pb ws k)) = chunk_text (state_after mc md st pb ws k)"
proof -
  obtain gs cur where t: "tracks mc md gs cur (state_after mc md st pb ws k)"
    using state_after_tracks by blast
  show ?thesis
  proof (cases "chunk_start_time (state_after mc md st pb ws k)")
    case None
    with t show ?thesis by (simp add: tracks_def strip_all_space)
  next
    case (Some a)
    with t show ?thesis by (simp add: tracks_def visible_text_stripped)
  qed
qed

section \<open>The writer never fails\<close>

lemma srt_blocks_ok:
  "\<forall>c\<in>set subs. sub_start c \<noteq> None \<and> sub_end c \<noteq> None \<Longrightarrow>
   \<exists>content. srt_blocks i subs = Inr content"
proof (induction subs arbitrary: i)
  case Nil
  then show ?case by simp
next
  case (Cons c subs)
  then obtain rest where r: "srt_blocks (Suc i) subs = Inr rest" by fastforce
  from Cons.prems obtain b e where "sub_start c = Some b" "sub_end c = Some e" by auto
  with r show ?case by simp
qed

lemma build_subtitles_times:
  "\<forall>c\<in>set (build_subtitles mc md st pb ws). sub_start c \<noteq> None \<and> sub_end c \<noteq> None"
proof -
  obtain groups rest where
    "build_subtitles mc md st pb ws = map chunk_of_words groups"
    using build_subtitles_groups[of ws mc md st pb] by blast
  then show ?thesis by (auto simp: chunk_of_words_def)
qed

section \<open>Runs on concrete inputs\<close>

lemma round_double_numeral [simp]:
  "numeral k < (2::int) ^ 53 \<Longrightarrow> round_double (numeral k) = numeral k"
  using round_double_of_int[of "numeral k"] by simp

lemma round_double_one [simp]: "round_double 1 = 1"
  using round_double_of_int[of 1] by simp

lemma round_double_half [simp]: "round_double (1 / 2) = 1 / 2"
  using round_double_exact[of 1 "- 1"] by simp

lemma round_double_nine_tenths [simp]: "\<not> 5 < round_double (9 / 10)"
proof -
  have "round_double (9 / 10) \<le> round_double 1" by (rule round_double_mono) simp
  then show ?thesis by simp
qed


lemmas eval_defs =
  build_subtitles_def run_loop_def loop_body_def flush_def append_chunk_def cut_before_def
  initial_state_def strip_def lstrip_def rstrip_def is_space_def mk_word_def Let_def
  default_punctuation_breaks_def

lemma scenario_a_value:
  "build_subtitles 60 5 (6 / 10) default_punctuation_breaks scenario_a =
     [\<lparr>sub_start = Some 0, sub_end = Some (9 / 10), sub_text = ''Hola mundo.''\<rparr>,
      \<lparr>sub_start = Some 2, sub_end = Some (23 / 10), sub_text = ''Adi'' @ [CHR 0xF3] @ ''s''\<rparr>]"
  by (simp add: eval_defs scenario_a_def)

lemma strip_long: "strip (replicate 70 CHR ''a'') = replicate 70 CHR ''a''"
  by (rule strip_fixed) (simp_all add: is_space_def)


lemma two_letter_subtitles:
  "build_subtitles 0 0 (- 1) default_punctuation_breaks [mk_word ''a'' 0 1, mk_word ''b'' 1 2] =
     [\<lparr>sub_start = Some 0, sub_end = Some 1, sub_text = ''a''\<rparr>,
      \<lparr>sub_start = Some 1, sub_end = Some 2, sub_text = ''b''\<rparr>]"
  by (simp add: eval_defs)

lemma hola_mundo_state:
  "state_after 60 5 (6 / 10) default_punctuation_breaks
     [mk_word ''Hola'' 0 (4 / 10), mk_word ''mundo.'' (4 / 10) (9 / 10)] 1 = hola_state"
  by (simp add: state_after_def eval_defs hola_state_def)

section \<open>The claims\<close>

text \<open>
  Claim C1 (completeness). When every word trims to a non-empty text, the word list is
  cut into consecutive non-empty runs, one per emitted chunk, each chunk carries the
  space-join of the trimmed texts of its run, and the chunk texts joined by single
  blanks are the space-join of the trimmed texts of all words: no word is omitted and
  none is duplicated. Neither the order of the start times nor the configuration
  matters.
\<close>

theorem completeness:
  assumes ne: "\<forall>w\<in>set words_list. strip (w_word w) \<noteq> []"
  shows "\<exists>groups. words_list = concat groups \<and> [] \<notin> set groups \<and>
           map sub_text (build_subtitles mc md st pb words_list) =
             map (\<lambda>g. join_sp (trimmed_texts g)) groups \<and>
           join_sp (map sub_text (build_subtitles mc md st pb words_list)) =
             join_sp (trimmed_texts words_list)"
proof -
  obtain groups rest where p: "words_list = concat groups @ rest" and g: "[] \<notin> set groups"
    and r: "\<forall>w\<in>set rest. strip (w_word w) = []"
    and b: "build_subtitles mc md st pb words_list = map chunk_of_words groups"
    using build_subtitles_groups[of words_list mc md st pb] by blast
  have "rest = []"
  proof (cases rest)
    case (Cons v vs)
    then have "v \<in> set words_list" "strip (w_word v) = []" using p r by simp_all
    with ne show ?thesis by blast
  qed simp
  with p have c: "words_list = concat groups" by simp
  have v: "visible_text h = join_sp (trimmed_texts h)" if "h \<in> set groups" for h
  proof (rule visible_text_all)
    show "\<forall>w\<in>set h. strip (w_word w) \<noteq> []" using that c ne by auto
  qed
  have m: "map sub_text (build_subtitles mc md st pb words_list) =
             map (\<lambda>g. join_sp (trimmed_texts g)) groups"
    using b v by (simp add: sub_text_chunk_of_words)
  have "[] \<notin> set (map trimmed_texts groups)"
    using g by (auto simp: trimmed_texts_def)
  then have "join_sp (map join_sp (map trimmed_texts groups)) =
             join_sp (concat (map trimmed_texts groups))"
    by (rule join_sp_concat)
  then have "join_sp (map (\<lambda>g. join_sp (trimmed_texts g)) groups) =
             join_sp (trimmed_texts words_list)"
    using c by (simp add: trimmed_texts_concat comp_def)
  with m c g show ?thesis by auto
qed

theorem completeness_witness:
  "join_sp (map sub_text (build_subtitles 60 5 (6 / 10) default_punctuation_breaks scenario_a)) =
     ''Hola mundo. Adi'' @ [CHR 0xF3] @ ''s''"
proof -
  have h: "\<forall>w\<in>set scenario_a. strip (w_word w) \<noteq> []"
    by (simp add: scenario_a_def mk_word_def strip_def lstrip_def rstrip_def is_space_def)
  have "join_sp (map sub_text (build_subtitles 60 5 (6 / 10) default_punctuation_breaks scenario_a)) =
          join_sp (trimmed_texts scenario_a)"
    using completeness[OF h, of 60 5 "6 / 10" default_punctuation_breaks] by blast
  also have "\<dots> = ''Hola mundo. Adi'' @ [CHR 0xF3] @ ''s''"
    by (simp add: trimmed_texts_def scenario_a_def mk_word_def strip_def lstrip_def rstrip_def
        is_space_def)
  finally show ?thesis .
qed

text \<open>
  Claim C2 (overflow before punctuation). One iteration of the loop on an open chunk.
  If adding the word would put the proposed text over \<open>max_chars\<close> or the proposed
  duration over \<open>max_duration\<close>, the chunk is closed without the word and a fresh chunk
  is opened with it; the resulting state mentions neither \<open>punctuation_breaks\<close> nor
  the position of the word, so the punctuation test plays no part. Conversely, when the
  iteration leaves no chunk open (which only the punctuation branch does), there was no
  overflow and the closed chunk already contains the word.
\<close>

theorem overflow_before_punctuation:
  assumes c: "chunk_start_time s = Some cst"
  shows "(overflows mc md s cst w \<longrightarrow>
            loop_body mc md st pb n (i, w) s =
              \<lparr>subtitles = subtitles s @
                  [\<lparr>sub_start = Some cst, sub_end = chunk_end_time s,
                    sub_text = strip (chunk_text s)\<rparr>],
               chunk_start_time = Some (w_start w), chunk_end_time = Some (w_end w),
               chunk_text = strip (w_word w), prev_word_end = w_end w\<rparr>) \<and>
         (chunk_start_time (loop_body mc md st pb n (i, w) s) = None \<longrightarrow>
            \<not> overflows mc md s cst w \<and> punctuation_cut pb n i w \<and>
            subtitles (loop_body mc md st pb n (i, w) s) =
              subtitles s @
                [\<lparr>sub_start = Some cst, sub_end = Some (w_end w),
                  sub_text = strip (chunk_text s @ '' '' @ strip (w_word w))\<rparr>])"
proof (intro conjI impI)
  assume o: "overflows mc md s cst w"
  have "loop_body mc md st pb n (i, w) s = (cut_before w s)\<lparr>prev_word_end := w_end w\<rparr>"
    using loop_body_cut[OF c disjI1[OF o]] .
  then show "loop_body mc md st pb n (i, w) s =
              \<lparr>subtitles = subtitles s @
                  [\<lparr>sub_start = Some cst, sub_end = chunk_end_time s,
                    sub_text = strip (chunk_text s)\<rparr>],
               chunk_start_time = Some (w_start w), chunk_end_time = Some (w_end w),
               chunk_text = strip (w_word w), prev_word_end = w_end w\<rparr>"
    using c by (simp add: cut_before_def append_chunk_def)
next
  assume n: "chunk_start_time (loop_body mc md st pb n (i, w) s) = None"
  have nc: "\<not> (overflows mc md s cst w \<or> silence_cut st s w)"
  proof
    assume d: "overflows mc md s cst w \<or> silence_cut st s w"
    have "loop_body mc md st pb n (i, w) s = (cut_before w s)\<lparr>prev_word_end := w_end w\<rparr>"
      using loop_body_cut[OF c d] .
    with n show False by (simp add: cut_before_def)
  qed
  then have nov: "\<not> overflows mc md s cst w" and ns: "\<not> silence_cut st s w" by simp_all
  have lb: "loop_body mc md st pb n (i, w) s =
     (if punctuation_cut pb n i w
      then (absorb w s)\<lparr>subtitles := append_chunk (absorb w s), chunk_start_time := None,
              chunk_end_time := None, chunk_text := [], prev_word_end := w_end w\<rparr>
      else (absorb w s)\<lparr>prev_word_end := w_end w\<rparr>)"
    using loop_body_absorb[OF c nov ns] .
  have p: "punctuation_cut pb n i w"
  proof (rule ccontr)
    assume "\<not> punctuation_cut pb n i w"
    with lb n c show False by (simp add: absorb_def)
  qed
  show "\<not> overflows mc md s cst w" using nc by simp
  show "punctuation_cut pb n i w" using p .
  show "subtitles (loop_body mc md st pb n (i, w) s) =
              subtitles s @
                [\<lparr>sub_start = Some cst, sub_end = Some (w_end w),
                  sub_text = strip (chunk_text s @ '' '' @ strip (w_word w))\<rparr>]"
    using lb p c by (simp add: absorb_def append_chunk_def strip_idem)
qed

theorem overflow_before_punctuation_witness:
  "loop_body 8 5 (6 / 10) default_punctuation_breaks 3
     (1, mk_word ''mundo.'' (4 / 10) (9 / 10)) hola_state =
     \<lparr>subtitles = [\<lparr>sub_start = Some 0, sub_end = Some (4 / 10), sub_text = ''Hola''\<rparr>],
      chunk_start_time = Some (4 / 10), chunk_end_time = Some (9 / 10),
      chunk_text = ''mundo.'', prev_word_end = 9 / 10\<rparr> \<and>
   subtitles (loop_body 60 5 (6 / 10) default_punctuation_breaks 3
     (1, mk_word ''mundo.'' (4 / 10) (9 / 10)) hola_state) =
     [\<lparr>sub_start = Some 0, sub_end = Some (9 / 10), sub_text = ''Hola mundo.''\<rparr>]"
proof -
  let ?w = "mk_word ''mundo.'' (4 / 10) (9 / 10)"
  have c: "chunk_start_time hola_state = Some 0" by (simp add: hola_state_def)
  have o: "overflows 8 5 hola_state 0 ?w"
    by (simp add: overflows_def hola_state_def mk_word_def strip_def lstrip_def rstrip_def
        is_space_def)
  have n: "chunk_start_time (loop_body 60 5 (6 / 10) default_punctuation_breaks 3 (1, ?w)
             hola_state) = None"
    by (simp add: eval_defs hola_state_def)
  have a: "loop_body 8 5 (6 / 10) default_punctuation_breaks 3 (1, ?w) hola_state =
             \<lparr>subtitles = subtitles hola_state @
                [\<lparr>sub_start = Some 0, sub_end = chunk_end_time hola_state,
                  sub_text = strip (chunk_text hola_state)\<rparr>],
              chunk_start_time = Some (w_start ?w), chunk_end_time = Some (w_end ?w),
              chunk_text = strip (w_word ?w), prev_word_end = w_end ?w\<rparr>"
    using overflow_before_punctuation[OF c, of 8 5 ?w "6 / 10" default_punctuation_breaks 3 1] o
    by blast
  have b: "subtitles (loop_body 60 5 (6 / 10) default_punctuation_breaks 3 (1, ?w) hola_state) =
             subtitles hola_state @
               [\<lparr>sub_start = Some 0, sub_end = Some (w_end ?w),
                 sub_text = strip (chunk_text hola_state @ '' '' @ strip (w_word ?w))\<rparr>]"
    using overflow_before_punctuation[OF c, of 60 5 ?w "6 / 10" default_punctuation_breaks 3 1] n
    by blast
  show ?thesis
    using a b
    by (simp add: hola_state_def mk_word_def strip_def lstrip_def rstrip_def is_space_def)
qed

text \<open>
  Claim C3 (length bound). The emitted chunks are the chunks of consecutive non-empty
  runs of the word list (what is left over at the end is words that trim to nothing).
  The text of a chunk of two or more words has at most \<open>max_chars\<close> characters, and
  every word whose visible trimmed text is longer than \<open>max_chars\<close> is a run of its
  own, emitted with exactly its trimmed text.
\<close>

theorem length_bound:
  "\<exists>groups rest. words_list = concat groups @ rest \<and> [] \<notin> set groups \<and>
      (\<forall>w\<in>set rest. strip (w_word w) = []) \<and>
      build_subtitles mc md st pb words_list = map chunk_of_words groups \<and>
      (\<forall>g\<in>set groups. 2 \<le> length g \<longrightarrow> int (length (sub_text (chunk_of_words g))) \<le> mc) \<and>
      (\<forall>w\<in>set words_list. strip (w_word w) \<noteq> [] \<and> mc < int (length (strip (w_word w))) \<longrightarrow>
         [w] \<in> set groups \<and> sub_text (chunk_of_words [w]) = strip (w_word w))"
proof -
  obtain groups rest where p: "words_list = concat groups @ rest" and g: "[] \<notin> set groups"
    and r: "\<forall>w\<in>set rest. strip (w_word w) = []"
    and b: "build_subtitles mc md st pb words_list = map chunk_of_words groups"
    and bd: "\<forall>g\<in>set groups. bounded_group mc md g"
    using build_subtitles_groups[of words_list mc md st pb] by blast
  have l: "\<forall>g\<in>set groups. 2 \<le> length g \<longrightarrow> int (length (sub_text (chunk_of_words g))) \<le> mc"
    using bd by (simp add: bounded_group_def sub_text_chunk_of_words)
  have o: "[w] \<in> set groups \<and> sub_text (chunk_of_words [w]) = strip (w_word w)"
    if w: "w \<in> set words_list" and t: "strip (w_word w) \<noteq> []"
      and long: "mc < int (length (strip (w_word w)))" for w
  proof -
    from w p r t obtain h where h: "h \<in> set groups" "w \<in> set h" by auto
    with bd have "bounded_group mc md h" by simp
    with h t long have "h = [w]" by (simp add: bounded_group_def overlong_def)
    with h show ?thesis by (simp add: sub_text_chunk_of_words visible_text_single)
  qed
  from p g r b l o show ?thesis by blast
qed

theorem length_bound_witness:
  "\<exists>groups rest. scenario_b = concat groups @ rest \<and>
      build_subtitles 60 5 (6 / 10) default_punctuation_breaks scenario_b =
        map chunk_of_words groups \<and>
      [long_word] \<in> set groups \<and>
      sub_text (chunk_of_words [long_word]) = replicate 70 CHR ''a''"
proof -
  obtain groups rest where p: "scenario_b = concat groups @ rest"
    and b: "build_subtitles 60 5 (6 / 10) default_punctuation_breaks scenario_b =
              map chunk_of_words groups"
    and o: "\<forall>w\<in>set scenario_b.
              strip (w_word w) \<noteq> [] \<and> 60 < int (length (strip (w_word w))) \<longrightarrow>
              [w] \<in> set groups \<and> sub_text (chunk_of_words [w]) = strip (w_word w)"
    using length_bound[of scenario_b 60 5 "6 / 10" default_punctuation_breaks] by blast
  have m: "long_word \<in> set scenario_b" by (simp add: scenario_b_def)
  have t: "strip (w_word long_word) = replicate 70 CHR ''a''"
    by (simp add: long_word_def mk_word_def strip_long)
  have "[long_word] \<in> set groups \<and>
        sub_text (chunk_of_words [long_word]) = strip (w_word long_word)"
    using o m t by simp
  with p b t show ?thesis by auto
qed




text \<open>
  Claim C5 (empty word list), as amended. When no segment contributes a word the
  function prints its warning, opens no file and returns normally, as it does on its
  other exit. No exception is raised and no subtitle sequence is written, not even an
  empty one.
\<close>

theorem no_words_early_return:
  assumes "collect_words (segments result) = []"
  shows "create_srt_with_natural_breaks result srt_path mc md st pb wld =
           Inr (wld\<lparr>stdout := stdout wld @ [no_words_message]\<rparr>)"
  using assms by (simp add: create_srt_with_natural_breaks_def)

theorem no_words_early_return_witness:
  "create_srt_with_natural_breaks
     \<lparr>segments = [\<lparr>seg_words = None\<rparr>, \<lparr>seg_words = Some []\<rparr>]\<rparr> ''audio.srt'' 60 5 (6 / 10)
     default_punctuation_breaks empty_world =
   Inr \<lparr>stdout = [no_words_message], files = Map.empty\<rparr>"
proof -
  have h: "collect_words (segments \<lparr>segments = [\<lparr>seg_words = None\<rparr>, \<lparr>seg_words = Some []\<rparr>]\<rparr>) = []"
    by simp
  show ?thesis
    using no_words_early_return[OF h, of "''audio.srt''" 60 5 "6 / 10"
        default_punctuation_breaks empty_world]
    by (simp add: empty_world_def)
qed

theorem no_word_data_counterexample:
  "create_srt_with_natural_breaks no_word_result ''audio.srt'' 60 5 (6 / 10)
     default_punctuation_breaks empty_world =
   Inr \<lparr>stdout = [no_words_message], files = Map.empty\<rparr>"
  by (simp add: create_srt_with_natural_breaks_def no_word_result_def empty_world_def)

text \<open>
  Claim C6 (configuration), as amended. The function does not validate its
  configuration. Whatever \<open>max_chars\<close>, \<open>max_duration\<close> and \<open>silence_threshold\<close> are,
  non-positive or negative values included, a call with a non-empty word list runs the
  whole loop, writes the blocks of the resulting subtitles to \<open>srt_path\<close> and returns
  normally.
\<close>

theorem no_configuration_check:
  assumes "collect_words (segments result) \<noteq> []"
  shows "\<exists>content.
           srt_blocks 1 (build_subtitles mc md st pb (collect_words (segments result))) =
             Inr content \<and>
           create_srt_with_natural_breaks result srt_path mc md st pb wld =
             Inr (wld\<lparr>files := (files wld)(srt_path \<mapsto> content)\<rparr>)"
proof -
  obtain content where
    "srt_blocks 1 (build_subtitles mc md st pb (collect_words (segments result))) = Inr content"
    using srt_blocks_ok[OF build_subtitles_times] by blast
  then show ?thesis using assms by (simp add: create_srt_with_natural_breaks_def)
qed

theorem no_configuration_check_witness:
  "\<exists>content.
     create_srt_with_natural_breaks two_letter_result ''audio.srt'' (- 5) (- 1) (- 1)
       default_punctuation_breaks empty_world =
     Inr (empty_world\<lparr>files := (files empty_world)(''audio.srt'' \<mapsto> content)\<rparr>)"
proof -
  have h: "collect_words (segments two_letter_result) \<noteq> []"
    by (simp add: two_letter_result_def)
  show ?thesis
    using no_configuration_check[OF h, of "- 5" "- 1" "- 1" default_punctuation_breaks
        "''audio.srt''" empty_world]
    by blast
qed

theorem invalid_configuration_counterexample:
  "create_srt_with_natural_breaks two_letter_result ''audio.srt'' 0 0 (- 1)
     default_punctuation_breaks empty_world =
   Inr \<lparr>stdout = [],
        files = [''audio.srt'' \<mapsto>
          ''1'' @ [CHR 0x0A] @ ''00:00:00,000 --> 00:00:01,000'' @ [CHR 0x0A] @
          ''a'' @ [CHR 0x0A, CHR 0x0A] @
          ''2'' @ [CHR 0x0A] @ ''00:00:01,000 --> 00:00:02,000'' @ [CHR 0x0A] @
          ''b'' @ [CHR 0x0A, CHR 0x0A]]\<rparr>"
  by (simp add: create_srt_with_natural_breaks_def two_letter_result_def empty_world_def
      two_letter_subtitles convert_small_values str_nat_small digit_char_def)

text \<open>
  Claim C7 (timestamp format), as amended. For every non-negative finite double the
  result is hours, colon, minutes, colon, seconds, comma, milliseconds. The hours are
  the decimal digits of the floor-division result, which below \<open>2 ^ 53\<close> is the whole
  seconds divided by 3600, padded with zeros to two digits and never cut: at least two
  digits, and no leading zero on a field longer than two. Minutes and seconds are two
  digits each, computed from the whole seconds. The milliseconds are three digits: the
  product of the fractional part by 1000, rounded to double precision and then
  truncated. That number is the truncated millisecond count of the argument or one more
  than it, and never exceeds 999. Zero gives \<open>00:00:00,000\<close> and 3661.5 gives
  \<open>01:01:01,500\<close>. The formatter is a function of its argument alone, so equal inputs
  give equal strings. At the double nearest to 0.29 the printed milliseconds are 290
  although the truncated count is 289.
\<close>

theorem srt_time_format:
  assumes d: "is_double seconds" and s: "0 \<le> seconds"
  shows "(\<exists>hh h ms.
            convert_seconds_to_srt_time seconds =
              hh @ '':'' @ two_digits (nat \<lfloor>seconds\<rfloor> div 60 mod 60) @ '':'' @
              two_digits (nat \<lfloor>seconds\<rfloor> mod 60) @ '','' @ three_digits ms \<and>
            2 \<le> length hh \<and> (\<forall>c\<in>set hh. is_digit c) \<and>
            (2 < length hh \<longrightarrow> hd hh \<noteq> CHR ''0'') \<and> dec_value hh = h \<and>
            h = nat (py_int (py_floordiv seconds 3600)) \<and>
            (seconds < 2 ^ 53 \<longrightarrow> h = nat \<lfloor>seconds\<rfloor> div 3600) \<and>
            ms = nat \<lfloor>round_double ((seconds - of_int \<lfloor>seconds\<rfloor>) * 1000)\<rfloor> \<and>
            (ms = nat \<lfloor>seconds * 1000\<rfloor> mod 1000 \<or>
             ms = nat \<lfloor>seconds * 1000\<rfloor> mod 1000 + 1) \<and>
            ms \<le> 999) \<and>
         convert_seconds_to_srt_time 0 = ''00:00:00,000'' \<and>
         convert_seconds_to_srt_time (7323 / 2) = ''01:01:01,500''"
proof -
  let ?t = "\<lfloor>seconds\<rfloor>"
  let ?h = "nat (py_int (py_floordiv seconds 3600))"
  let ?r = "\<lfloor>round_double ((seconds - of_int ?t) * 1000)\<rfloor>"
  let ?T = "\<lfloor>seconds * 1000\<rfloor> mod 1000"
  have t0: "0 \<le> ?t" using s by simp
  have T0: "0 \<le> ?T" by simp
  have r1: "?T \<le> ?r" and r2: "?r \<le> ?T + 1" and r3: "?r < 1000"
    using millis_eq(2,3,4)[OF d s] by simp_all
  have r0: "0 \<le> ?r" using T0 r1 by linarith
  have l: "nat ?t div 60 mod 60 < 100" "nat ?t mod 60 < 100" by simp_all
  have l3: "nat ?r < 1000" using r3 r0 by linarith
  have c: "convert_seconds_to_srt_time seconds =
             format_zero_pad 2 (int ?h) @ '':'' @ two_digits (nat ?t div 60 mod 60) @ '':'' @
             two_digits (nat ?t mod 60) @ '','' @ three_digits (nat ?r)"
    using convert_fields[OF d s]
    by (simp only: format_two_small[OF l(1)] format_two_small[OF l(2)] format_three_small[OF l3])
  have hx: "seconds < 2 ^ 53 \<longrightarrow> ?h = nat ?t div 3600"
  proof
    assume b: "seconds < 2 ^ 53"
    have "py_int (py_floordiv seconds 3600) = ?t div 3600" using s b by (rule hours_eq)
    then show "?h = nat ?t div 3600" using t0 by (simp add: nat_div_distrib)
  qed
  have Tn: "nat ?T = nat \<lfloor>seconds * 1000\<rfloor> mod 1000"
    using s by (simp add: nat_mod_distrib)
  have "?r = ?T \<or> ?r = ?T + 1" using r1 r2 by linarith
  then have ms: "nat ?r = nat \<lfloor>seconds * 1000\<rfloor> mod 1000 \<or>
                 nat ?r = nat \<lfloor>seconds * 1000\<rfloor> mod 1000 + 1"
    using Tn T0 by (auto simp: nat_add_distrib)
  have m9: "nat ?r \<le> 999" using l3 by linarith
  have gen: "\<exists>hh h ms.
            convert_seconds_to_srt_time seconds =
              hh @ '':'' @ two_digits (nat ?t div 60 mod 60) @ '':'' @
              two_digits (nat ?t mod 60) @ '','' @ three_digits ms \<and>
            2 \<le> length hh \<and> (\<forall>c\<in>set hh. is_digit c) \<and>
            (2 < length hh \<longrightarrow> hd hh \<noteq> CHR ''0'') \<and> dec_value hh = h \<and>
            h = nat (py_int (py_floordiv seconds 3600)) \<and>
            (seconds < 2 ^ 53 \<longrightarrow> h = nat ?t div 3600) \<and>
            ms = nat ?r \<and>
            (ms = nat \<lfloor>seconds * 1000\<rfloor> mod 1000 \<or>
             ms = nat \<lfloor>seconds * 1000\<rfloor> mod 1000 + 1) \<and>
            ms \<le> 999"
    using c format_two_props[of ?h] format_two_leading[of ?h] hx ms m9 by blast
  from gen convert_small_values(1) convert_small_values(4) show ?thesis by blast
qed

theorem srt_time_format_witness:
  "is_double (1440003 / 4) \<and> (0::real) \<le> 1440003 / 4 \<and>
   convert_seconds_to_srt_time (1440003 / 4) = ''100:00:00,750''"
proof -
  have h: "(0::real) \<le> 1440003 / 4" by simp
  have f: "\<lfloor>1440003 / 4 :: real\<rfloor> = 360000" by simp
  obtain hh k ms where c: "convert_seconds_to_srt_time (1440003 / 4) =
              hh @ '':'' @ two_digits (nat \<lfloor>1440003 / 4 :: real\<rfloor> div 60 mod 60) @ '':'' @
              two_digits (nat \<lfloor>1440003 / 4 :: real\<rfloor> mod 60) @ '','' @ three_digits ms"
    and ms: "ms = nat \<lfloor>round_double ((1440003 / 4 - of_int \<lfloor>1440003 / 4 :: real\<rfloor>) * 1000)\<rfloor>"
    using srt_time_format[OF is_double_examples(5) h] by blast
  have "ms = 750" unfolding ms f by (simp add: round_double_small_ints)
  then have "convert_seconds_to_srt_time (1440003 / 4) = hh @ '':00:00,750''"
    using c unfolding f by (simp add: two_digits_def three_digits_def digit_char_def)
  with is_double_examples(5) h convert_small_values(5) show ?thesis by simp
qed

theorem truncated_millis_counterexample:
  "is_double double_0_29 \<and> 0 \<le> double_0_29 \<and>
   convert_seconds_to_srt_time double_0_29 = ''00:00:00,290'' \<and>
   nat \<lfloor>double_0_29 * 1000\<rfloor> mod 1000 = 289"
proof -
  have p: "0 \<le> double_0_29" and b: "double_0_29 < 2 ^ 53"
    by (simp_all add: double_0_29_def)
  have f: "\<lfloor>double_0_29\<rfloor> = 0" by (simp add: double_0_29_def)
  have c: "convert_seconds_to_srt_time double_0_29 = ''00:00:00,290''"
    using convert_fields_small[OF is_double_examples(6) p b]
    unfolding f by (simp add: round_double_290 format_small_values)
  have t: "nat \<lfloor>double_0_29 * 1000\<rfloor> mod 1000 = 289"
    by (simp add: double_0_29_def)
  from is_double_examples(6) p c t show ?thesis by simp
qed

text \<open>
  Claim C8 (punctuation on the last word). When the last word is added to the open
  chunk and its trimmed text is not empty, in particular when it ends in a character
  of \<open>punctuation_breaks\<close>, the loop ends with that chunk still open and no subtitle
  appended in the last iteration; the flush emits the chunk, ending at the end of the
  last word, and the output is that of a last iteration run with no punctuation
  characters at all.
\<close>

theorem last_word_flush:
  assumes ne: "words_list \<noteq> []"
    and c: "chunk_start_time (state_after mc md st pb words_list (length words_list - 1)) = Some cst"
    and nov: "\<not> overflows mc md (state_after mc md st pb words_list (length words_list - 1)) cst
               (last words_list)"
    and ns: "\<not> silence_cut st (state_after mc md st pb words_list (length words_list - 1))
               (last words_list)"
    and t: "strip (w_word (last words_list)) \<noteq> []"
  shows "run_loop mc md st pb words_list =
           (absorb (last words_list)
              (state_after mc md st pb words_list (length words_list - 1)))
             \<lparr>prev_word_end := w_end (last words_list)\<rparr> \<and>
         build_subtitles mc md st pb words_list =
           subtitles (state_after mc md st pb words_list (length words_list - 1)) @
             [\<lparr>sub_start = Some cst, sub_end = Some (w_end (last words_list)),
               sub_text = strip (chunk_text (state_after mc md st pb words_list
                                   (length words_list - 1)) @ '' '' @
                                 strip (w_word (last words_list)))\<rparr>] \<and>
         build_subtitles mc md st pb words_list =
           flush (loop_body mc md st [] (length words_list)
                    (length words_list - 1, last words_list)
                    (state_after mc md st pb words_list (length words_list - 1)))"
proof -
  let ?k = "length words_list - 1"
  let ?w = "last words_list"
  let ?s = "state_after mc md st pb words_list ?k"
  let ?p = "strip (chunk_text ?s @ '' '' @ strip (w_word ?w))"
  have k: "?k < length words_list" "Suc ?k = length words_list" using ne by simp_all
  have w: "words_list ! ?k = ?w" using ne by (simp add: last_conv_nth)
  have np: "\<not> punctuation_cut q (length words_list) ?k v" for q v
    using k by (simp add: punctuation_cut_def)
  have r: "run_loop mc md st pb words_list = loop_body mc md st pb (length words_list) (?k, ?w) ?s"
    using state_after_Suc[OF k(1), of mc md st pb] k(2) w
    by (simp add: state_after_all)
  have lb: "loop_body mc md st q (length words_list) (?k, ?w) ?s =
              (absorb ?w ?s)\<lparr>prev_word_end := w_end ?w\<rparr>" for q
    using loop_body_absorb[OF c nov ns, of q "length words_list" ?k] np by simp
  have pn: "?p \<noteq> []"
    using strip_join[OF state_after_stripped strip_idem, of mc md st pb words_list ?k "w_word ?w"] t
    by (simp split: if_splits)
  have f: "flush ((absorb ?w ?s)\<lparr>prev_word_end := w_end ?w\<rparr>) =
             subtitles ?s @ [\<lparr>sub_start = Some cst, sub_end = Some (w_end ?w), sub_text = ?p\<rparr>]"
    using pn c by (simp add: flush_def absorb_def append_chunk_def strip_idem)
  show ?thesis
    using r lb f by (simp add: build_subtitles_def)
qed

theorem last_word_flush_witness:
  "build_subtitles 60 5 (6 / 10) default_punctuation_breaks
     [mk_word ''Hola'' 0 (4 / 10), mk_word ''mundo.'' (4 / 10) (9 / 10)] =
     [\<lparr>sub_start = Some 0, sub_end = Some (9 / 10), sub_text = ''Hola mundo.''\<rparr>]"
proof -
  let ?ws = "[mk_word ''Hola'' 0 (4 / 10), mk_word ''mundo.'' (4 / 10) (9 / 10)]"
  have s: "state_after 60 5 (6 / 10) default_punctuation_breaks ?ws (length ?ws - 1) = hola_state"
    using hola_mundo_state by simp
  have ne: "?ws \<noteq> []" by simp
  have c: "chunk_start_time (state_after 60 5 (6 / 10) default_punctuation_breaks ?ws
             (length ?ws - 1)) = Some 0"
    unfolding s by (simp add: hola_state_def)
  have nov: "\<not> overflows 60 5 (state_after 60 5 (6 / 10) default_punctuation_breaks ?ws
             (length ?ws - 1)) 0 (last ?ws)"
    unfolding s
    by (simp add: overflows_def hola_state_def mk_word_def strip_def lstrip_def rstrip_def
        is_space_def)
  have ns: "\<not> silence_cut (6 / 10) (state_after 60 5 (6 / 10) default_punctuation_breaks ?ws
             (length ?ws - 1)) (last ?ws)"
    unfolding s by (simp add: silence_cut_def hola_state_def mk_word_def)
  have t: "strip (w_word (last ?ws)) \<noteq> []"
    by (simp add: mk_word_def strip_def lstrip_def rstrip_def is_space_def)
  have "build_subtitles 60 5 (6 / 10) default_punctuation_breaks ?ws =
           subtitles (state_after 60 5 (6 / 10) default_punctuation_breaks ?ws (length ?ws - 1)) @
             [\<lparr>sub_start = Some 0, sub_end = Some (w_end (last ?ws)),
               sub_text = strip (chunk_text (state_after 60 5 (6 / 10)
                                   default_punctuation_breaks ?ws (length ?ws - 1)) @ '' '' @
                                 strip (w_word (last ?ws)))\<rparr>]"
    using last_word_flush[OF ne c nov ns t] by blast
  then show ?thesis
    unfolding s
    by (simp add: hola_state_def mk_word_def strip_def lstrip_def rstrip_def is_space_def)
qed

text \<open>
  Claim C9 (times of the chunks). When every word has start \<le> end and the starts are
  non-decreasing, the emitted chunks are the chunks of consecutive non-empty runs of
  the words, the start of each chunk is the start of the first word of its run and its
  end is the end of the last word of its run, every chunk has start \<le> end, and the
  starts of the chunks are non-decreasing.
\<close>

theorem chunk_times:
  assumes wf: "\<forall>w\<in>set words_list. w_start w \<le> w_end w"
    and srt: "sorted (map w_start words_list)"
  shows "\<exists>groups rest. words_list = concat groups @ rest \<and> [] \<notin> set groups \<and>
      (\<forall>w\<in>set rest. strip (w_word w) = []) \<and>
      map (\<lambda>c. (sub_start c, sub_end c)) (build_subtitles mc md st pb words_list) =
        map (\<lambda>g. (Some (w_start (hd g)), Some (w_end (last g)))) groups \<and>
      (\<forall>g\<in>set groups. w_start (hd g) \<le> w_end (last g)) \<and>
      sorted (map (\<lambda>g. w_start (hd g)) groups)"
proof -
  obtain groups rest where p: "words_list = concat groups @ rest" and g: "[] \<notin> set groups"
    and r: "\<forall>w\<in>set rest. strip (w_word w) = []"
    and b: "build_subtitles mc md st pb words_list = map chunk_of_words groups"
    using build_subtitles_groups[of words_list mc md st pb] by blast
  have t: "map (\<lambda>c. (sub_start c, sub_end c)) (build_subtitles mc md st pb words_list) =
        map (\<lambda>g. (Some (w_start (hd g)), Some (w_end (last g)))) groups"
    using b by (simp add: chunk_of_words_def)
  have "sorted (map w_start (concat groups))"
    using srt p by (simp add: sorted_append)
  then have s: "sorted (map (\<lambda>g. w_start (hd g)) groups)"
    and h: "\<forall>g\<in>set groups. w_start (hd g) \<le> w_start (last g)"
    using sorted_group_starts[of w_start groups] g by simp_all
  have "w_start (hd h) \<le> w_end (last h)" if "h \<in> set groups" for h
  proof -
    from that g have "h \<noteq> []" by auto
    then have "last h \<in> set h" by simp
    then have "last h \<in> set words_list" using that p by auto
    then have "w_start (last h) \<le> w_end (last h)" using wf by simp
    with h that show ?thesis by fastforce
  qed
  with p g r t s show ?thesis by blast
qed

theorem chunk_times_witness:
  "\<exists>groups rest. scenario_a = concat groups @ rest \<and> [] \<notin> set groups \<and>
      (\<forall>w\<in>set rest. strip (w_word w) = []) \<and>
      map (\<lambda>c. (sub_start c, sub_end c))
        (build_subtitles 60 5 (6 / 10) default_punctuation_breaks scenario_a) =
        map (\<lambda>g. (Some (w_start (hd g)), Some (w_end (last g)))) groups \<and>
      (\<forall>g\<in>set groups. w_start (hd g) \<le> w_end (last g)) \<and>
      sorted (map (\<lambda>g. w_start (hd g)) groups)"
proof -
  have wf: "\<forall>w\<in>set scenario_a. w_start w \<le> w_end w"
    by (simp add: scenario_a_def mk_word_def)
  have srt: "sorted (map w_start scenario_a)"
    by (simp add: scenario_a_def mk_word_def)
  show ?thesis using chunk_times[OF wf srt] .
qed

text \<open>
  Claim C10 (words that trim to nothing). Provided the empty string is not an element
  of \<open>punctuation_breaks\<close>, the iteration on a word whose text trims to the empty
  string always leaves a chunk open, so it never closes one through the punctuation
  branch; and when such a word is added to the open chunk, the state changes only in
  the end time of the chunk and in \<open>prev_word_end\<close>: text and subtitles stay as they
  were.
\<close>

theorem empty_word_no_punctuation_cut:
  assumes pb: "[] \<notin> set pb" and k: "k < length words_list"
    and e: "strip (w_word (words_list ! k)) = []"
  shows "chunk_start_time (state_after mc md st pb words_list (Suc k)) \<noteq> None \<and>
         (\<forall>cst. chunk_start_time (state_after mc md st pb words_list k) = Some cst \<and>
                \<not> overflows mc md (state_after mc md st pb words_list k) cst (words_list ! k) \<and>
                \<not> silence_cut st (state_after mc md st pb words_list k) (words_list ! k) \<longrightarrow>
            state_after mc md st pb words_list (Suc k) =
              (state_after mc md st pb words_list k)
                \<lparr>chunk_end_time := Some (w_end (words_list ! k)),
                 prev_word_end := w_end (words_list ! k)\<rparr>)"
proof -
  let ?w = "words_list ! k"
  let ?s = "state_after mc md st pb words_list k"
  let ?n = "length words_list"
  have su: "state_after mc md st pb words_list (Suc k) = loop_body mc md st pb ?n (k, ?w) ?s"
    using k by (rule state_after_Suc)
  have np: "\<not> punctuation_cut pb ?n k ?w"
    using pb e by (simp add: punctuation_cut_def)
  have ab: "loop_body mc md st pb ?n (k, ?w) ?s =
              ?s\<lparr>chunk_end_time := Some (w_end ?w), prev_word_end := w_end ?w\<rparr>"
    if c: "chunk_start_time ?s = Some cst" and nov: "\<not> overflows mc md ?s cst ?w"
      and ns: "\<not> silence_cut st ?s ?w" for cst
  proof -
    have "strip (chunk_text ?s @ '' '') = chunk_text ?s"
      using state_after_stripped by (rule strip_join_right_empty)
    then have "absorb ?w ?s = ?s\<lparr>chunk_end_time := Some (w_end ?w)\<rparr>"
      using e by (simp add: absorb_def)
    then show ?thesis using loop_body_absorb[OF c nov ns, of pb ?n k] np by simp
  qed
  have op: "chunk_start_time (loop_body mc md st pb ?n (k, ?w) ?s) \<noteq> None"
  proof (cases "chunk_start_time ?s")
    case None
    then show ?thesis by (simp add: loop_body_None)
  next
    case (Some cst)
    show ?thesis
    proof (cases "overflows mc md ?s cst ?w \<or> silence_cut st ?s ?w")
      case True
      then show ?thesis using loop_body_cut[OF Some True] by (simp add: cut_before_def)
    next
      case False
      then show ?thesis using ab[OF Some] Some by simp
    qed
  qed
  show ?thesis using su op ab by simp
qed

theorem empty_word_no_punctuation_cut_witness:
  "state_after 60 5 (6 / 10) default_punctuation_breaks blank_word_list (Suc 1) =
     \<lparr>subtitles = [], chunk_start_time = Some 0, chunk_end_time = Some (5 / 10),
      chunk_text = ''Hola'', prev_word_end = 5 / 10\<rparr>"
proof -
  let ?w = "blank_word_list ! 1"
  have s: "state_after 60 5 (6 / 10) default_punctuation_breaks blank_word_list 1 = hola_state"
    by (simp add: state_after_def eval_defs hola_state_def blank_word_list_def)
  have w: "?w = mk_word '' '' (4 / 10) (5 / 10)" by (simp add: blank_word_list_def)
  have pb: "[] \<notin> set default_punctuation_breaks"
    by (simp add: default_punctuation_breaks_def)
  have k: "1 < length blank_word_list" by (simp add: blank_word_list_def)
  have e: "strip (w_word ?w) = []"
    unfolding w by (simp add: mk_word_def strip_def lstrip_def rstrip_def is_space_def)
  have c: "chunk_start_time (state_after 60 5 (6 / 10) default_punctuation_breaks
             blank_word_list 1) = Some 0"
    unfolding s by (simp add: hola_state_def)
  have nov: "\<not> overflows 60 5 (state_after 60 5 (6 / 10) default_punctuation_breaks
             blank_word_list 1) 0 ?w"
    unfolding s w
    by (simp add: overflows_def hola_state_def mk_word_def strip_def lstrip_def rstrip_def
        is_space_def)
  have ns: "\<not> silence_cut (6 / 10) (state_after 60 5 (6 / 10) default_punctuation_breaks
             blank_word_list 1) ?w"
    unfolding s w by (simp add: silence_cut_def hola_state_def mk_word_def)
  have "state_after 60 5 (6 / 10) default_punctuation_breaks blank_word_list (Suc 1) =
          (state_after 60 5 (6 / 10) default_punctuation_breaks blank_word_list 1)
            \<lparr>chunk_end_time := Some (w_end ?w), prev_word_end := w_end ?w\<rparr>"
    using empty_word_no_punctuation_cut[OF pb k e, of 60 5 "6 / 10"] c nov ns by blast
  then show ?thesis
    unfolding s w by (simp add: hola_state_def mk_word_def)
qed

end
